theory Spec2Isabelle
  imports Complex_Main "HOL-Library.Multiset" "HOL-Library.Sublist"
begin

section \<open>Data model\<close>

text \<open>
  The program (\<^verbatim>\<open>src/main.cpp\<close>) works on \<^verbatim>\<open>std::string\<close> values, here \<^typ>\<open>string\<close>
  (a list of bytes), on \<^verbatim>\<open>int\<close> counters and on \<^verbatim>\<open>double\<close> ratios.

  The sizes of the texts, the indices and the cells of the two tables stay below \<open>2^31\<close>
  for texts shorter than 2 GiB; these \<^verbatim>\<open>int\<close> values are modelled by unbounded integers,
  which is the program on such texts; so is the counter \<^verbatim>\<open>countContained\<close> of
  \<^verbatim>\<open>broderContainment\<close>, which counts strings that the set \<^verbatim>\<open>substrings1\<close> holds in memory.
  The accumulator \<^verbatim>\<open>totalLength\<close> of
  \<^verbatim>\<open>similarityMetric\<close> is another matter: it sums the lengths of all substrings found and
  passes \<open>2^31 - 1\<close> already for a text of 64 KiB compared with itself. The statement
  \<^verbatim>\<open>totalLength += substring.size()\<close> adds in \<^verbatim>\<open>size_t\<close> and converts the sum back to
  \<^verbatim>\<open>int\<close>, which keeps the low 32 bits in two's complement; \<open>int32\<close> below writes this
  wrap-around out.

  A \<^verbatim>\<open>double\<close> is a finite value, an infinity or NaN. Every \<^verbatim>\<open>double\<close> of the program is
  the quotient of two integers; the quotient is kept exact (rounding to 53 bits is not
  modelled), and a division by zero follows IEEE 754: \<open>0/0\<close> is NaN and \<open>x/0\<close> is an
  infinity. No trap is raised.
\<close>

datatype double = Val real | PInf | NInf | NaN

definition int32 :: "int \<Rightarrow> int" where
  \<comment> \<open>the conversion of an integer to a 32-bit \<^verbatim>\<open>int\<close>: the value modulo \<open>2^32\<close> in
      \<open>[-2^31, 2^31)\<close>\<close>
  "int32 x = (x + 2147483648) mod 4294967296 - 2147483648"

definition double_div :: "int \<Rightarrow> int \<Rightarrow> double" where
  \<comment> \<open>\<^verbatim>\<open>static_cast<double>(a) / b\<close>\<close>
  "double_div a b =
     (if b \<noteq> 0 then Val (real_of_int a / real_of_int b)
      else if a = 0 then NaN
      else if 0 < a then PInf else NInf)"

fun double_gt :: "double \<Rightarrow> double \<Rightarrow> bool" where
  \<comment> \<open>the operator \<^verbatim>\<open>></\<close> on doubles: false as soon as one side is NaN\<close>
  "double_gt NaN y = False"
| "double_gt x NaN = False"
| "double_gt (Val x) (Val y) = (y < x)"
| "double_gt (Val x) PInf = False"
| "double_gt (Val x) NInf = True"
| "double_gt PInf PInf = False"
| "double_gt PInf y = True"
| "double_gt NInf y = False"

fun double_eq :: "double \<Rightarrow> double \<Rightarrow> bool" where
  \<comment> \<open>the operator \<^verbatim>\<open>==\<close> on doubles: NaN is equal to nothing, not even to itself\<close>
  "double_eq NaN y = False"
| "double_eq x NaN = False"
| "double_eq x y = (x = y)"

definition double_ge :: "double \<Rightarrow> double \<Rightarrow> bool" where
  \<comment> \<open>the operator \<^verbatim>\<open>>=\<close> on doubles\<close>
  "double_ge x y = (double_gt x y \<or> double_eq x y)"

definition substr :: "string \<Rightarrow> nat \<Rightarrow> nat \<Rightarrow> string" where
  \<comment> \<open>\<^verbatim>\<open>s.substr(pos, len)\<close>; the program calls it with \<open>pos \<le> size\<close> only
      (see \<open>fcs_dp_le\<close> below), where it does not throw\<close>
  "substr s pos len = take len (drop pos s)"

text \<open>
  An \<^verbatim>\<open>unordered_set<string>\<close> is a list without duplicates: \<^verbatim>\<open>insert\<close> is
  \<^const>\<open>List.insert\<close>, \<^verbatim>\<open>count\<close> is membership and \<^verbatim>\<open>size\<close> is the length. The iteration
  order of the C++ container is unspecified; the model iterates in insertion order, and
  every result below depends on the elements only, not on their order.
\<close>

section \<open>findCommonSubstrings\<close>

type_synonym fcs_state = "int list list \<times> string list"

definition fcs_cell :: "string \<Rightarrow> string \<Rightarrow> int \<Rightarrow> nat \<Rightarrow> nat \<Rightarrow> fcs_state \<Rightarrow> fcs_state" where
  \<comment> \<open>the body of the inner loop, on the table \<open>dp\<close> and the set \<open>substrings\<close>\<close>
  "fcs_cell str1 str2 minLength i j st =
     (case st of (dp, substrings) \<Rightarrow>
        if str1 ! (i - 1) = str2 ! (j - 1) then
          let d = dp ! (i - 1) ! (j - 1) + 1;
              dp' = dp[i := (dp ! i)[j := d]]
          in (dp',
              if minLength \<le> d
              then List.insert (substr str1 (nat (int i - d)) (nat d)) substrings
              else substrings)
        else (dp, substrings))"

definition fcs_row :: "string \<Rightarrow> string \<Rightarrow> int \<Rightarrow> nat \<Rightarrow> fcs_state \<Rightarrow> fcs_state" where
  \<comment> \<open>\<^verbatim>\<open>for (int j = 1; j <= n; ++j)\<close>\<close>
  "fcs_row str1 str2 minLength i st =
     fold (fcs_cell str1 str2 minLength i) [1..<Suc (length str2)] st"

definition fcs_table :: "string \<Rightarrow> string \<Rightarrow> int \<Rightarrow> fcs_state" where
  \<comment> \<open>\<^verbatim>\<open>for (int i = 1; i <= m; ++i)\<close>, from the table of zeros and the empty set\<close>
  "fcs_table str1 str2 minLength =
     (let m = length str1; n = length str2;
          dp = replicate (m + 1) (replicate (n + 1) 0)
      in fold (fcs_row str1 str2 minLength) [1..<Suc m] (dp, []))"

definition findCommonSubstrings :: "string \<Rightarrow> string \<Rightarrow> int \<Rightarrow> string list" where
  "findCommonSubstrings str1 str2 minLength = snd (fcs_table str1 str2 minLength)"

section \<open>similarityMetric\<close>

definition similarityMetric :: "string \<Rightarrow> string \<Rightarrow> int \<Rightarrow> double" where
  \<comment> \<open>each \<^verbatim>\<open>totalLength += substring.size()\<close> stores the sum back into the 32-bit
      \<^verbatim>\<open>int totalLength\<close>\<close>
  "similarityMetric str1 str2 minLength =
     (let commonSubstrings = findCommonSubstrings str1 str2 minLength;
          totalLength = fold (\<lambda>substring t. int32 (t + int (length substring)))
                             commonSubstrings 0;
          maxLength = int (max (length str1) (length str2))
      in double_div totalLength maxLength)"

section \<open>editDistance\<close>

definition ed_cell :: "string \<Rightarrow> string \<Rightarrow> nat \<Rightarrow> nat \<Rightarrow> int list list \<Rightarrow> int list list" where
  \<comment> \<open>the body of the inner loop: the four branches in the order of the source\<close>
  "ed_cell str1 str2 i j dp =
     (if i = 0 then dp[i := (dp ! i)[j := int j]]
      else if j = 0 then dp[i := (dp ! i)[j := int i]]
      else if str1 ! (i - 1) = str2 ! (j - 1)
        then dp[i := (dp ! i)[j := dp ! (i - 1) ! (j - 1)]]
      else dp[i := (dp ! i)[j := 1 + min (dp ! (i - 1) ! j)
                                        (min (dp ! i ! (j - 1)) (dp ! (i - 1) ! (j - 1)))]])"

definition ed_row :: "string \<Rightarrow> string \<Rightarrow> nat \<Rightarrow> int list list \<Rightarrow> int list list" where
  \<comment> \<open>\<^verbatim>\<open>for (int j = 0; j <= n; ++j)\<close>\<close>
  "ed_row str1 str2 i dp = fold (ed_cell str1 str2 i) [0..<Suc (length str2)] dp"

definition ed_table :: "string \<Rightarrow> string \<Rightarrow> int list list" where
  \<comment> \<open>\<^verbatim>\<open>for (int i = 0; i <= m; ++i)\<close>, from the table of zeros\<close>
  "ed_table str1 str2 =
     (let m = length str1; n = length str2;
          dp = replicate (m + 1) (replicate (n + 1) 0)
      in fold (ed_row str1 str2) [0..<Suc m] dp)"

definition editDistance :: "string \<Rightarrow> string \<Rightarrow> int" where
  "editDistance str1 str2 = ed_table str1 str2 ! length str1 ! length str2"

section \<open>broderContainment\<close>

definition all_substrings :: "string \<Rightarrow> string list" where
  \<comment> \<open>the two nested loops that fill \<^verbatim>\<open>substrings1\<close> (and \<^verbatim>\<open>substrings2\<close>)\<close>
  "all_substrings s =
     fold (\<lambda>i acc. fold (\<lambda>j acc'. List.insert (substr s i (j - i)) acc')
                         [Suc i..<Suc (length s)] acc)
          [0..<length s] []"

definition broderContainment :: "string \<Rightarrow> string \<Rightarrow> double" where
  "broderContainment str1 str2 =
     (let substrings1 = all_substrings str1;
          substrings2 = all_substrings str2;
          countContained = fold (\<lambda>s c. if s \<in> set substrings2 then c + 1 else c)
                                substrings1 (0::int)
      in double_div countContained (int (length substrings1)))"

section \<open>generateSimilarityMatrix\<close>

definition gsm_cell :: "string list \<Rightarrow> int \<Rightarrow> nat \<Rightarrow> nat \<Rightarrow> double list list \<Rightarrow> double list list" where
  \<comment> \<open>the body of the inner loop: the value is written at \<open>(i, j)\<close>, then at \<open>(j, i)\<close>\<close>
  "gsm_cell documents minLength i j similarityMatrix =
     (let similarity = similarityMetric (documents ! i) (documents ! j) minLength;
          m1 = similarityMatrix[i := (similarityMatrix ! i)[j := similarity]]
      in m1[j := (m1 ! j)[i := similarity]])"

definition gsm_row :: "string list \<Rightarrow> int \<Rightarrow> nat \<Rightarrow> double list list \<Rightarrow> double list list" where
  \<comment> \<open>\<^verbatim>\<open>for (int j = i + 1; j < n; ++j)\<close>\<close>
  "gsm_row documents minLength i similarityMatrix =
     fold (gsm_cell documents minLength i) [Suc i..<length documents] similarityMatrix"

definition generateSimilarityMatrix :: "string list \<Rightarrow> int \<Rightarrow> double list list" where
  "generateSimilarityMatrix documents minLength =
     (let n = length documents
      in fold (gsm_row documents minLength) [0..<n] (replicate n (replicate n (Val 0))))"

section \<open>Ranking the pairs (main)\<close>

definition allPairs :: "nat \<Rightarrow> (nat \<times> nat) list" where
  \<comment> \<open>the two loops of \<^verbatim>\<open>main\<close> that fill \<^verbatim>\<open>mostSimilarPairs\<close> by \<^verbatim>\<open>push_back\<close>\<close>
  "allPairs n =
     fold (\<lambda>i ps. fold (\<lambda>j ps'. ps' @ [(i, j)]) [Suc i..<n] ps) [0..<n] []"

definition comparePairs :: "nat \<times> nat \<Rightarrow> nat \<times> nat \<Rightarrow> double list list \<Rightarrow> bool" where
  "comparePairs a b similarityMatrix =
     double_gt (similarityMatrix ! fst a ! snd a) (similarityMatrix ! fst b ! snd b)"

text \<open>
  \<^verbatim>\<open>std::sort\<close> belongs to the C++ library, which fixes its contract and not its
  algorithm: with a comparator that is a strict weak ordering the result is a permutation
  of the input, ordered by the comparator. An insertion sort driven by the comparator
  stands for it here.
\<close>

fun insert_by :: "('a \<Rightarrow> 'a \<Rightarrow> bool) \<Rightarrow> 'a \<Rightarrow> 'a list \<Rightarrow> 'a list" where
  "insert_by cmp x [] = [x]"
| "insert_by cmp x (y # ys) = (if cmp x y then x # y # ys else y # insert_by cmp x ys)"

definition std_sort :: "('a \<Rightarrow> 'a \<Rightarrow> bool) \<Rightarrow> 'a list \<Rightarrow> 'a list" where
  "std_sort cmp xs = fold (insert_by cmp) xs []"

definition rankedPairs :: "string list \<Rightarrow> int \<Rightarrow> (nat \<times> nat) list" where
  \<comment> \<open>\<^verbatim>\<open>main\<close> up to the call of \<^verbatim>\<open>sort\<close>, for any minimum length (\<^verbatim>\<open>main\<close> uses 5)\<close>
  "rankedPairs documents minLength =
     (let similarityMatrix = generateSimilarityMatrix documents minLength
      in std_sort (\<lambda>a b. comparePairs a b similarityMatrix) (allPairs (length documents)))"

definition pairValue :: "double list list \<Rightarrow> nat \<times> nat \<Rightarrow> double" where
  \<comment> \<open>the matrix value of a pair, \<^verbatim>\<open>similarityMatrix[p.first][p.second]\<close>\<close>
  "pairValue similarityMatrix p = similarityMatrix ! fst p ! snd p"

section \<open>Auxiliary notions for the proofs\<close>

subsection \<open>Common substrings\<close>

text \<open>
  \<open>lcsuf a b i j\<close> is the length of the longest common suffix of the first \<open>i\<close>
  characters of \<open>a\<close> and the first \<open>j\<close> characters of \<open>b\<close>: the value the table \<open>dp\<close>
  of \<^const>\<open>findCommonSubstrings\<close> holds at \<open>(i, j)\<close>. \<open>fcs_done n i j\<close> are the cells
  visited once the loops have reached column \<open>j\<close> of row \<open>i\<close>, \<open>fcs_hits\<close> the strings
  inserted at these cells, and \<open>fcs_inv\<close> the loop invariant.
\<close>

fun lcsuf :: "string \<Rightarrow> string \<Rightarrow> nat \<Rightarrow> nat \<Rightarrow> nat" where
  "lcsuf a b 0 j = 0"
| "lcsuf a b (Suc i) 0 = 0"
| "lcsuf a b (Suc i) (Suc j) = (if a ! i = b ! j then Suc (lcsuf a b i j) else 0)"

definition fcs_done :: "nat \<Rightarrow> nat \<Rightarrow> nat \<Rightarrow> (nat \<times> nat) set" where
  "fcs_done n i j = {(r, c). c \<le> n \<and> (r < i \<or> (r = i \<and> c \<le> j))}"

definition fcs_hit :: "string \<Rightarrow> string \<Rightarrow> nat \<times> nat \<Rightarrow> string" where
  "fcs_hit a b p = substr a (fst p - lcsuf a b (fst p) (snd p)) (lcsuf a b (fst p) (snd p))"

definition fcs_hits :: "string \<Rightarrow> string \<Rightarrow> int \<Rightarrow> (nat \<times> nat) set \<Rightarrow> string set" where
  "fcs_hits a b k D =
     fcs_hit a b ` {p \<in> D. 1 \<le> lcsuf a b (fst p) (snd p) \<and> k \<le> int (lcsuf a b (fst p) (snd p))}"

definition fcs_inv :: "string \<Rightarrow> string \<Rightarrow> int \<Rightarrow> nat \<Rightarrow> nat \<Rightarrow> fcs_state \<Rightarrow> bool" where
  "fcs_inv a b k i j st =
     (case st of (dp, subs) \<Rightarrow>
        length dp = Suc (length a) \<and>
        (\<forall>r \<le> length a. length (dp ! r) = Suc (length b)) \<and>
        (\<forall>r c. r \<le> length a \<longrightarrow> c \<le> length b \<longrightarrow>
           dp ! r ! c = (if (r, c) \<in> fcs_done (length b) i j then int (lcsuf a b r c) else 0)) \<and>
        set subs = fcs_hits a b k (fcs_done (length b) i j) \<and> distinct subs)"

text \<open>
  \<open>totalLength a b k\<close> is the exact sum of the lengths of the substrings found, before any
  conversion to \<^verbatim>\<open>int\<close>.
\<close>

definition totalLength :: "string \<Rightarrow> string \<Rightarrow> int \<Rightarrow> int" where
  "totalLength a b k = (\<Sum>s \<in> set (findCommonSubstrings a b k). int (length s))"

subsection \<open>Edit distance\<close>

text \<open>
  \<open>ed_val a b i j\<close> is the recurrence the table of \<^const>\<open>editDistance\<close> is filled by, and
  \<open>ed_inv\<close> the loop invariant: the cells before \<open>(i, j)\<close> in row-major order hold it.
\<close>

fun ed_val :: "string \<Rightarrow> string \<Rightarrow> nat \<Rightarrow> nat \<Rightarrow> nat" where
  "ed_val a b 0 j = j"
| "ed_val a b (Suc i) 0 = Suc i"
| "ed_val a b (Suc i) (Suc j) =
     (if a ! i = b ! j then ed_val a b i j
      else 1 + min (ed_val a b i (Suc j)) (min (ed_val a b (Suc i) j) (ed_val a b i j)))"

definition ed_inv :: "string \<Rightarrow> string \<Rightarrow> nat \<Rightarrow> nat \<Rightarrow> int list list \<Rightarrow> bool" where
  "ed_inv a b i j dp =
     (length dp = Suc (length a) \<and>
      (\<forall>r \<le> length a. length (dp ! r) = Suc (length b)) \<and>
      (\<forall>r c. r \<le> length a \<longrightarrow> c \<le> length b \<longrightarrow> (r < i \<or> (r = i \<and> c < j)) \<longrightarrow>
         dp ! r ! c = int (ed_val a b r c)))"

text \<open>
  The same recurrence on lists, read from the head: \<open>lev\<close> of the reversed texts is the
  value of the table (\<open>editDistance_lev\<close>).
\<close>

fun lev :: "string \<Rightarrow> string \<Rightarrow> nat" where
  "lev [] ys = length ys"
| "lev (x # xs) [] = Suc (length xs)"
| "lev (x # xs) (y # ys) =
     (if x = y then lev xs ys
      else 1 + min (lev xs (y # ys)) (min (lev (x # xs) ys) (lev xs ys)))"

text \<open>
  A single-character edit: the insertion, the deletion or the substitution of one
  character at any position of the text. \<open>(edit1 ^^ n) a b\<close> says that \<open>n\<close> such edits
  transform \<open>a\<close> into \<open>b\<close>.
\<close>

inductive edit1 :: "string \<Rightarrow> string \<Rightarrow> bool" where
  ins: "edit1 (xs @ ys) (xs @ c # ys)"
| del: "edit1 (xs @ c # ys) (xs @ ys)"
| sub: "edit1 (xs @ c # ys) (xs @ d # ys)"

subsection \<open>Similarity matrix and pair list\<close>

text \<open>
  \<open>gsm_entry\<close> is the value of the cell \<open>(r, c)\<close> off the diagonal, \<open>gsm_done i j\<close> the cells
  written once the loops have reached column \<open>j\<close> of row \<open>i\<close>, and \<open>gsm_inv\<close> the loop
  invariant of \<^const>\<open>generateSimilarityMatrix\<close>. \<open>pairsUpTo n i\<close> is the pair list of \<^verbatim>\<open>main\<close>
  after \<open>i\<close> rounds of its outer loop.
\<close>

definition gsm_entry :: "string list \<Rightarrow> int \<Rightarrow> nat \<Rightarrow> nat \<Rightarrow> double" where
  "gsm_entry docs k r c = similarityMetric (docs ! min r c) (docs ! max r c) k"

definition gsm_done :: "nat \<Rightarrow> nat \<Rightarrow> nat \<Rightarrow> nat \<Rightarrow> bool" where
  "gsm_done i j r c = (min r c < max r c \<and> (min r c < i \<or> (min r c = i \<and> max r c < j)))"

definition gsm_inv :: "string list \<Rightarrow> int \<Rightarrow> nat \<Rightarrow> nat \<Rightarrow> double list list \<Rightarrow> bool" where
  "gsm_inv docs k i j M =
     (length M = length docs \<and>
      (\<forall>r < length docs. length (M ! r) = length docs) \<and>
      (\<forall>r c. r < length docs \<longrightarrow> c < length docs \<longrightarrow>
         M ! r ! c = (if gsm_done i j r c then gsm_entry docs k r c else Val 0)))"

definition pairsUpTo :: "nat \<Rightarrow> nat \<Rightarrow> (nat \<times> nat) list" where
  "pairsUpTo n i = fold (\<lambda>i ps. fold (\<lambda>j ps'. ps' @ [(i, j)]) [Suc i..<n] ps) [0..<i] []"

section \<open>Properties of findCommonSubstrings\<close>

lemma lcsuf_le: "lcsuf a b i j \<le> i \<and> lcsuf a b i j \<le> j"
  by (induction a b i j rule: lcsuf.induct) auto

lemma lcsuf_0 [simp]: "lcsuf a b i 0 = 0"
  by (cases i) auto

lemma lcsuf_sym: "lcsuf a b i j = lcsuf b a j i"
  by (induction a b i j rule: lcsuf.induct) auto

lemma lcsuf_nth:
  "t < lcsuf a b i j \<Longrightarrow> a ! (i - lcsuf a b i j + t) = b ! (j - lcsuf a b i j + t)"
proof (induction a b i j rule: lcsuf.induct)
  case (3 a b i j)
  show ?case
  proof (cases "a ! i = b ! j")
    case False
    with 3 show ?thesis by simp
  next
    case True
    have le: "lcsuf a b i j \<le> i" "lcsuf a b i j \<le> j" using lcsuf_le by auto
    show ?thesis
    proof (cases "t < lcsuf a b i j")
      case True
      with 3 \<open>a ! i = b ! j\<close> show ?thesis by simp
    next
      case False
      with 3(2) \<open>a ! i = b ! j\<close> have "t = lcsuf a b i j" by simp
      with le \<open>a ! i = b ! j\<close> show ?thesis by simp
    qed
  qed
qed simp_all

lemma length_substr: "pos + len \<le> length s \<Longrightarrow> length (substr s pos len) = len"
  by (simp add: substr_def)

lemma nth_substr: "pos + len \<le> length s \<Longrightarrow> t < len \<Longrightarrow> substr s pos len ! t = s ! (pos + t)"
  by (simp add: substr_def)

lemma fcs_hit_length: "fst p \<le> length a \<Longrightarrow> length (fcs_hit a b p) = lcsuf a b (fst p) (snd p)"
  unfolding fcs_hit_def using lcsuf_le[of a b "fst p" "snd p"] by (simp add: length_substr)

lemma fcs_hit_other:
  assumes "fst p \<le> length a" "snd p \<le> length b"
  shows "fcs_hit a b p = substr b (snd p - lcsuf a b (fst p) (snd p)) (lcsuf a b (fst p) (snd p))"
proof -
  let ?d = "lcsuf a b (fst p) (snd p)"
  have le: "?d \<le> fst p" "?d \<le> snd p" using lcsuf_le by auto
  show ?thesis unfolding fcs_hit_def
  proof (rule nth_equalityI)
    show "length (substr a (fst p - ?d) ?d) = length (substr b (snd p - ?d) ?d)"
      using le assms by (simp add: length_substr)
  next
    fix t assume "t < length (substr a (fst p - ?d) ?d)"
    then have t: "t < ?d" using le assms by (simp add: length_substr)
    then show "substr a (fst p - ?d) ?d ! t = substr b (snd p - ?d) ?d ! t"
      using le assms lcsuf_nth[OF t] by (simp add: nth_substr)
  qed
qed

lemma fcs_done_Suc: "j < n \<Longrightarrow> fcs_done n i (Suc j) = insert (i, Suc j) (fcs_done n i j)"
  by (auto simp: fcs_done_def)

lemma fcs_hits_insert:
  "fcs_hits a b k (insert p D) =
     (if 1 \<le> lcsuf a b (fst p) (snd p) \<and> k \<le> int (lcsuf a b (fst p) (snd p))
      then insert (fcs_hit a b p) (fcs_hits a b k D) else fcs_hits a b k D)"
  by (auto simp: fcs_hits_def)

lemma fcs_cell_inv:
  assumes inv: "fcs_inv a b k i j st" and i: "1 \<le> i" "i \<le> length a" and j: "j < length b"
  shows "fcs_inv a b k i (Suc j) (fcs_cell a b k i (Suc j) st)"
proof -
  obtain dp subs where st: "st = (dp, subs)" by (cases st)
  obtain i' where i': "i = Suc i'" using i by (cases i) auto
  let ?D = "fcs_done (length b) i j"
  from inv st have len: "length dp = Suc (length a)"
    and lens: "\<And>r. r \<le> length a \<Longrightarrow> length (dp ! r) = Suc (length b)"
    and cells: "\<And>r c. r \<le> length a \<Longrightarrow> c \<le> length b \<Longrightarrow>
           dp ! r ! c = (if (r, c) \<in> ?D then int (lcsuf a b r c) else 0)"
    and subs: "set subs = fcs_hits a b k ?D" and dist: "distinct subs"
    by (auto simp: fcs_inv_def)
  have D': "fcs_done (length b) i (Suc j) = insert (i, Suc j) ?D"
    using j by (rule fcs_done_Suc)
  have notin: "(i, Suc j) \<notin> ?D" by (simp add: fcs_done_def)
  have prev: "dp ! i' ! j = int (lcsuf a b i' j)"
    using cells[of i' j] i j i' by (simp add: fcs_done_def)
  show ?thesis
  proof (cases "a ! i' = b ! j")
    case False
    then have l0: "lcsuf a b i (Suc j) = 0" using i' by simp
    have "dp ! i ! Suc j = 0" using cells[of i "Suc j"] i j notin by simp
    with False l0 show ?thesis
      using len lens cells subs dist i' unfolding fcs_inv_def st fcs_cell_def D'
      by (auto simp: fcs_hits_insert)
  next
    case True
    then have l: "lcsuf a b i (Suc j) = Suc (lcsuf a b i' j)" using i' by simp
    let ?d = "lcsuf a b i (Suc j)"
    have pre: "a ! (i - 1) = b ! (Suc j - 1)" using True i' by simp
    have d: "dp ! (i - 1) ! (Suc j - 1) + 1 = int ?d" using prev l i' by simp
    have hit: "substr a (nat (int i - int ?d)) (nat (int ?d)) = fcs_hit a b (i, Suc j)"
      using lcsuf_le[of a b i "Suc j"] by (simp add: fcs_hit_def nat_diff_distrib')
    let ?dp = "dp[i := (dp ! i)[Suc j := int ?d]]"
    have c1: "fcs_cell a b k i (Suc j) st =
       (?dp, if k \<le> int ?d then List.insert (fcs_hit a b (i, Suc j)) subs else subs)"
      using pre d hit unfolding st fcs_cell_def by (simp add: Let_def)
    have a1: "length ?dp = Suc (length a)" using len by simp
    have a2: "\<forall>r \<le> length a. length (?dp ! r) = Suc (length b)"
      using len lens i by (auto simp: nth_list_update)
    have a3: "\<forall>r c. r \<le> length a \<longrightarrow> c \<le> length b \<longrightarrow>
           ?dp ! r ! c = (if (r, c) \<in> insert (i, Suc j) ?D then int (lcsuf a b r c) else 0)"
      using len lens cells i j by (auto simp: nth_list_update)
    have a4: "set (if k \<le> int ?d then List.insert (fcs_hit a b (i, Suc j)) subs else subs)
         = fcs_hits a b k (insert (i, Suc j) ?D)"
      using subs l by (simp add: fcs_hits_insert)
    have a5: "distinct (if k \<le> int ?d then List.insert (fcs_hit a b (i, Suc j)) subs else subs)"
      using dist by simp
    show ?thesis unfolding c1 D' fcs_inv_def using a1 a2 a3 a4 a5 by simp
  qed
qed

text \<open>
  Under the invariant the position handed to \<^verbatim>\<open>substr\<close> lies inside the text, so the call of
  the source does not throw.
\<close>

lemma fcs_dp_le:
  assumes "fcs_inv a b k i j (dp, subs)" and "1 \<le> i" "i \<le> length a" and "j < length b"
  shows "0 \<le> int i - (dp ! (i - 1) ! j + 1) \<and> nat (int i - (dp ! (i - 1) ! j + 1)) \<le> length a"
proof -
  have "dp ! (i - 1) ! j = int (lcsuf a b (i - 1) j)"
    using assms by (auto simp: fcs_inv_def fcs_done_def)
  moreover have "lcsuf a b (i - 1) j \<le> i - 1" using lcsuf_le by blast
  ultimately show ?thesis using assms(2,3) by auto
qed

lemma fcs_row_inv_aux:
  assumes inv: "fcs_inv a b k i 0 st" and i: "1 \<le> i" "i \<le> length a"
  shows "j \<le> length b \<Longrightarrow> fcs_inv a b k i j (fold (fcs_cell a b k i) [1..<Suc j] st)"
proof (induction j)
  case 0
  with inv show ?case by simp
next
  case (Suc j)
  then have "fcs_inv a b k i j (fold (fcs_cell a b k i) [1..<Suc j] st)" by simp
  from fcs_cell_inv[OF this i] Suc.prems show ?case by simp
qed

lemma fcs_row_inv:
  assumes "fcs_inv a b k i (length b) st" and "i < length a"
  shows "fcs_inv a b k (Suc i) (length b) (fcs_row a b k (Suc i) st)"
proof -
  have eq: "fcs_hits a b k (fcs_done (length b) (Suc i) 0) = fcs_hits a b k (fcs_done (length b) i (length b))"
    by (auto simp: fcs_hits_def fcs_done_def less_Suc_eq)
  have "fcs_inv a b k (Suc i) 0 st"
    using assms(1) unfolding fcs_inv_def eq
    by (auto simp: fcs_done_def less_Suc_eq split: prod.splits)
  from fcs_row_inv_aux[OF this, of "length b"] assms(2) show ?thesis
    by (simp add: fcs_row_def)
qed

lemma fcs_table_inv_aux:
  "i \<le> length a \<Longrightarrow>
   fcs_inv a b k i (length b)
     (fold (fcs_row a b k) [1..<Suc i] (replicate (length a + 1) (replicate (length b + 1) 0), []))"
proof (induction i)
  case 0
  have z: "replicate (length a + 1) (replicate (length b + 1) (0::int)) ! r ! c = 0"
    if "r \<le> length a" "c \<le> length b" for r c
    using that by (simp del: replicate_Suc add: Suc_eq_plus1[symmetric])
  have l: "length (replicate (length a + 1) (replicate (length b + 1) (0::int)) ! r) = Suc (length b)"
    if "r \<le> length a" for r
    using that by (simp del: replicate_Suc add: Suc_eq_plus1[symmetric])
  have h: "fcs_hits a b k (fcs_done (length b) 0 (length b)) = {}"
    by (auto simp: fcs_hits_def fcs_done_def)
  show ?case unfolding fcs_inv_def using z l h by (simp add: fcs_done_def)
next
  case (Suc i)
  then have "fcs_inv a b k i (length b)
     (fold (fcs_row a b k) [1..<Suc i] (replicate (length a + 1) (replicate (length b + 1) 0), []))"
    by simp
  from fcs_row_inv[OF this] Suc.prems show ?case by simp
qed

lemma fcs_table_inv: "fcs_inv a b k (length a) (length b) (fcs_table a b k)"
  using fcs_table_inv_aux[of "length a" a b k] by (simp add: fcs_table_def Let_def)

lemma fcs_done_full: "fcs_done n m n = {(r, c). r \<le> m \<and> c \<le> n}"
  by (auto simp: fcs_done_def)

lemma fcs_set:
  "set (findCommonSubstrings a b k) = fcs_hits a b k {(r, c). r \<le> length a \<and> c \<le> length b}"
  using fcs_table_inv[of a b k]
  by (auto simp: fcs_inv_def findCommonSubstrings_def fcs_done_full split: prod.splits)

lemma fcs_distinct: "distinct (findCommonSubstrings a b k)"
  using fcs_table_inv[of a b k]
  by (auto simp: fcs_inv_def findCommonSubstrings_def split: prod.splits)

lemma sublist_substr: "sublist (substr s pos len) s"
  unfolding substr_def
  by (meson sublist_take sublist_drop sublist_order.order_trans)

lemma fcs_elem:
  assumes "s \<in> set (findCommonSubstrings a b k)"
  shows "k \<le> int (length s) \<and> 1 \<le> length s \<and> sublist s a \<and> sublist s b"
proof -
  from assms obtain p where p: "fst p \<le> length a" "snd p \<le> length b"
      "1 \<le> lcsuf a b (fst p) (snd p)" "k \<le> int (lcsuf a b (fst p) (snd p))"
      and s: "s = fcs_hit a b p"
    unfolding fcs_set fcs_hits_def by auto
  have "length s = lcsuf a b (fst p) (snd p)" using s p(1) by (simp add: fcs_hit_length)
  moreover have "sublist s a" unfolding s fcs_hit_def by (rule sublist_substr)
  moreover have "sublist s b" unfolding s fcs_hit_other[OF p(1,2)] by (rule sublist_substr)
  ultimately show ?thesis using p by simp
qed

text \<open>
  Claim C10. For texts \<open>A\<close>, \<open>B\<close> and a minimum length \<open>k \<ge> 1\<close>, the vector returned by
  \<^const>\<open>findCommonSubstrings\<close> has no duplicate element, and every element has length at
  least \<open>k\<close> and occurs contiguously in \<open>A\<close> and in \<open>B\<close>.
\<close>

theorem findCommonSubstrings_sound:
  "1 \<le> k \<Longrightarrow>
   distinct (findCommonSubstrings A B k) \<and>
   (\<forall>s \<in> set (findCommonSubstrings A B k). k \<le> int (length s) \<and> sublist s A \<and> sublist s B)"
  using fcs_distinct fcs_elem by blast

theorem findCommonSubstrings_sound_witness:
  "(1::int) \<le> 2 \<and> distinct (findCommonSubstrings ''abcde'' ''abcxy'' 2) \<and>
   ''abc'' \<in> set (findCommonSubstrings ''abcde'' ''abcxy'' 2) \<and>
   (2::int) \<le> int (length ''abc'') \<and> sublist ''abc'' ''abcde'' \<and> sublist ''abc'' ''abcxy''"
proof -
  have k: "(1::int) \<le> 2" by simp
  have m: "''abc'' \<in> set (findCommonSubstrings ''abcde'' ''abcxy'' 2)" by code_simp
  from findCommonSubstrings_sound[OF k, of "''abcde''" "''abcxy''"] m k show ?thesis by blast
qed

text \<open>
  Claim C1. The returned set is claimed to hold every common substring of length at least
  \<open>k\<close>. Each cell of the table contributes only the longest common suffix ending there, so a
  common substring that is never such a longest suffix is left out: on \<open>abcde\<close> and \<open>abcxy\<close>
  with \<open>k = 2\<close> the result is \<open>abc\<close> and \<open>ab\<close>, and the common substring \<open>bc\<close> is missing.
\<close>

theorem findCommonSubstrings_misses_bc:
  "findCommonSubstrings ''abcde'' ''abcxy'' 2 = [''abc'', ''ab''] \<and>
   (2::int) \<le> int (length ''bc'') \<and> sublist ''bc'' ''abcde'' \<and> sublist ''bc'' ''abcxy'' \<and>
   ''bc'' \<notin> set (findCommonSubstrings ''abcde'' ''abcxy'' 2)"
  by code_simp

lemma fcs_hits_sym:
  "fcs_hits a b k {(r, c). r \<le> length a \<and> c \<le> length b}
     \<subseteq> fcs_hits b a k {(r, c). r \<le> length b \<and> c \<le> length a}"
proof
  fix s assume "s \<in> fcs_hits a b k {(r, c). r \<le> length a \<and> c \<le> length b}"
  then obtain p where p: "fst p \<le> length a" "snd p \<le> length b"
      "1 \<le> lcsuf a b (fst p) (snd p)" "k \<le> int (lcsuf a b (fst p) (snd p))"
      and s: "s = fcs_hit a b p"
    unfolding fcs_hits_def by auto
  let ?q = "(snd p, fst p)"
  have "s = fcs_hit b a ?q"
    unfolding s fcs_hit_other[OF p(1,2)] by (simp add: fcs_hit_def lcsuf_sym[of b a])
  moreover have "1 \<le> lcsuf b a (fst ?q) (snd ?q)" "k \<le> int (lcsuf b a (fst ?q) (snd ?q))"
    using p(3,4) by (simp_all add: lcsuf_sym[of b a])
  ultimately show "s \<in> fcs_hits b a k {(r, c). r \<le> length b \<and> c \<le> length a}"
    unfolding fcs_hits_def using p(1,2) by (intro image_eqI[of _ _ ?q]) auto
qed

lemma fcs_set_sym: "set (findCommonSubstrings a b k) = set (findCommonSubstrings b a k)"
  unfolding fcs_set using fcs_hits_sym[of a b k] fcs_hits_sym[of b a k] by blast

lemma int32_add_left: "int32 (int32 x + y) = int32 (x + y)"
proof -
  have "(int32 x + y + 2147483648) mod 4294967296
      = ((x + 2147483648) mod 4294967296 + y) mod 4294967296"
    by (simp add: int32_def)
  also have "\<dots> = (x + 2147483648 + y) mod 4294967296" by (rule mod_add_left_eq)
  also have "x + 2147483648 + y = x + y + 2147483648" by simp
  finally show ?thesis by (simp only: int32_def)
qed

lemma int32_id: "- 2147483648 \<le> x \<Longrightarrow> x \<le> 2147483647 \<Longrightarrow> int32 x = x"
  by (simp add: int32_def)

lemma fold_add_length:
  "fold (\<lambda>s t. int32 (t + int (length s))) xs (int32 t0)
     = int32 (t0 + (\<Sum>s\<leftarrow>xs. int (length s)))"
proof (induction xs arbitrary: t0)
  case Nil
  show ?case by simp
next
  case (Cons x xs)
  show ?case using Cons[of "t0 + int (length x)"] by (simp add: int32_add_left add.assoc)
qed

lemma sum_list_totalLength:
  "(\<Sum>s\<leftarrow>findCommonSubstrings a b k. int (length s)) = totalLength a b k"
  by (simp add: totalLength_def sum_list_distinct_conv_sum_set[OF fcs_distinct])

lemma similarityMetric_eq:
  "similarityMetric a b k
     = double_div (int32 (totalLength a b k)) (int (max (length a) (length b)))"
proof -
  have "fold (\<lambda>s t. int32 (t + int (length s))) (findCommonSubstrings a b k) 0
      = int32 (totalLength a b k)"
    using fold_add_length[of "findCommonSubstrings a b k" 0]
    by (simp add: int32_id sum_list_totalLength)
  then show ?thesis by (simp add: similarityMetric_def Let_def)
qed

lemma totalLength_sym: "totalLength a b k = totalLength b a k"
  by (simp add: totalLength_def fcs_set_sym[of a b k])

lemma totalLength_nonneg: "0 \<le> totalLength a b k"
  by (simp add: totalLength_def sum_nonneg)

lemma similarityMetric_sym: "similarityMetric a b k = similarityMetric b a k"
  by (simp add: similarityMetric_eq totalLength_sym[of a b k] max.commute)

lemma similarityMetric_Val:
  "a \<noteq> [] \<or> b \<noteq> [] \<Longrightarrow>
   similarityMetric a b k
     = Val (real_of_int (int32 (totalLength a b k)) / real (max (length a) (length b)))"
  by (auto simp: similarityMetric_eq double_div_def)

lemma similarityMetric_NaN: "similarityMetric [] [] k = NaN"
  by (simp add: similarityMetric_def findCommonSubstrings_def fcs_table_def fcs_row_def double_div_def)

text \<open>
  A bound on the exact sum by the sizes of the texts: a substring is found at a cell of the
  table, there are \<open>length a * length b\<close> cells off the border, and no common suffix is
  longer than the shorter text.
\<close>

lemma lcsuf_pos: "1 \<le> lcsuf a b i j \<Longrightarrow> 1 \<le> i \<and> 1 \<le> j"
  by (cases i; cases j) simp_all

lemma totalLength_le_size:
  "totalLength a b k \<le> int (length a * length b * min (length a) (length b))"
proof -
  let ?m = "length a" and ?n = "length b"
  let ?C = "{p \<in> {(r, c). r \<le> ?m \<and> c \<le> ?n}.
              1 \<le> lcsuf a b (fst p) (snd p) \<and> k \<le> int (lcsuf a b (fst p) (snd p))}"
  have sub: "?C \<subseteq> {1..?m} \<times> {1..?n}"
  proof
    fix p assume "p \<in> ?C"
    then have p: "fst p \<le> ?m" "snd p \<le> ?n" "1 \<le> lcsuf a b (fst p) (snd p)" by auto
    from lcsuf_pos[OF p(3)] p(1,2) show "p \<in> {1..?m} \<times> {1..?n}"
      by (simp add: mem_Times_iff)
  qed
  have fin: "finite ?C" using sub by (rule finite_subset) simp
  have "card ?C \<le> card ({1..?m} \<times> {1..?n})" using sub by (intro card_mono) simp_all
  then have card: "card ?C \<le> ?m * ?n" by simp
  have "totalLength a b k = (\<Sum>s \<in> fcs_hit a b ` ?C. int (length s))"
    by (simp add: totalLength_def fcs_set fcs_hits_def)
  also have "\<dots> \<le> (\<Sum>p \<in> ?C. int (length (fcs_hit a b p)))"
    using sum_image_le[OF fin, of "\<lambda>s. int (length s)" "fcs_hit a b"] by (simp add: o_def)
  also have "\<dots> \<le> int (card ?C) * int (min ?m ?n)"
  proof (rule sum_bounded_above)
    fix p assume "p \<in> ?C"
    then have p: "fst p \<le> ?m" "snd p \<le> ?n" by auto
    have "length (fcs_hit a b p) = lcsuf a b (fst p) (snd p)"
      using p(1) by (rule fcs_hit_length)
    moreover have "lcsuf a b (fst p) (snd p) \<le> fst p" "lcsuf a b (fst p) (snd p) \<le> snd p"
      using lcsuf_le[of a b "fst p" "snd p"] by simp_all
    ultimately have "length (fcs_hit a b p) \<le> min ?m ?n" using p by simp
    then show "int (length (fcs_hit a b p)) \<le> int (min ?m ?n)" by (simp only: of_nat_le_iff)
  qed
  also have "\<dots> \<le> int (?m * ?n) * int (min ?m ?n)"
  proof (rule mult_right_mono)
    show "int (card ?C) \<le> int (?m * ?n)" using card by (simp only: of_nat_le_iff)
  qed simp
  finally show ?thesis by simp
qed

section \<open>Properties of similarityMetric\<close>

lemma lcsuf_same: "i \<le> length a \<Longrightarrow> lcsuf a a i i = i"
  by (induction i) simp_all

lemma fcs_whole:
  assumes "a \<noteq> []" and "k \<le> int (length a)"
  shows "a \<in> set (findCommonSubstrings a a k)"
proof -
  let ?p = "(length a, length a)"
  have d: "lcsuf a a (length a) (length a) = length a" by (simp add: lcsuf_same)
  have "fcs_hit a a ?p = a" by (simp add: fcs_hit_def d substr_def)
  moreover have "fcs_hit a a ?p \<in> fcs_hits a a k {(r, c). r \<le> length a \<and> c \<le> length a}"
    unfolding fcs_hits_def using assms d by (intro imageI) (cases a, auto)
  ultimately show ?thesis by (simp add: fcs_set)
qed

lemma fcs_only_whole:
  assumes "a \<noteq> []"
  shows "set (findCommonSubstrings a a (int (length a))) = {a}"
proof -
  have "s = a" if "s \<in> set (findCommonSubstrings a a (int (length a)))" for s
  proof -
    from that obtain p where p: "fst p \<le> length a"
        "int (length a) \<le> int (lcsuf a a (fst p) (snd p))" and s: "s = fcs_hit a a p"
      unfolding fcs_set fcs_hits_def by auto
    have "lcsuf a a (fst p) (snd p) \<le> fst p" using lcsuf_le by blast
    with p have "lcsuf a a (fst p) (snd p) = length a" "fst p = length a" by auto
    then show ?thesis by (simp add: s fcs_hit_def substr_def)
  qed
  with fcs_whole[OF assms, of "int (length a)"] show ?thesis by auto
qed

lemma totalLength_same_ge:
  assumes "a \<noteq> []" and "k \<le> int (length a)"
  shows "int (length a) \<le> totalLength a a k"
  unfolding totalLength_def
  using member_le_sum[of a "set (findCommonSubstrings a a k)" "\<lambda>s. int (length s)"]
    fcs_whole[OF assms]
  by simp

lemma totalLength_same_eq:
  "a \<noteq> [] \<Longrightarrow> totalLength a a (int (length a)) = int (length a)"
  by (simp add: totalLength_def fcs_only_whole)

text \<open>
  Claim C2. The ratio is claimed to lie in \<open>[0, 1]\<close>. Every common substring found counts
  with its full length, prefixes of a longer match included, so the sum can exceed the
  length of the longer text: \<open>abcde\<close> against itself with \<open>k = 1\<close> yields the five prefixes,
  of total length 15, and the ratio 3.
\<close>

lemma fcs_abcde_self:
  "findCommonSubstrings ''abcde'' ''abcde'' 1 = [''abcde'', ''abcd'', ''abc'', ''ab'', ''a'']"
  by code_simp

theorem similarityMetric_above_one:
  "similarityMetric ''abcde'' ''abcde'' 1 = Val 3 \<and>
   \<not> double_ge (Val 1) (similarityMetric ''abcde'' ''abcde'' 1)"
  by (simp add: similarityMetric_def fcs_abcde_self int32_def double_div_def double_ge_def)

text \<open>
  A run of 65536 equal characters compared with itself: the substrings found are the runs
  of every length from \<open>k\<close> to 65536, whose lengths total 2147516416 for \<open>k = 1\<close> and
  2147516406 for \<open>k = 5\<close>. Both pass \<open>2^31 - 1\<close>, the accumulator wraps, and the ratio is
  negative.
\<close>

lemma lcsuf_replicate:
  "r \<le> n \<Longrightarrow> c \<le> n \<Longrightarrow> lcsuf (replicate n x) (replicate n x) r c = min r c"
proof (induction r arbitrary: c)
  case 0
  show ?case by simp
next
  case (Suc r)
  then show ?case by (cases c) simp_all
qed

lemma fcs_hit_replicate:
  assumes "fst p \<le> n" "snd p \<le> n"
  shows "fcs_hit (replicate n x) (replicate n x) p = replicate (min (fst p) (snd p)) x"
proof -
  let ?d = "min (fst p) (snd p)"
  have "min ?d (n - (fst p - ?d)) = ?d" using assms by auto
  then show ?thesis using assms by (simp add: fcs_hit_def lcsuf_replicate substr_def)
qed

lemma fcs_replicate_set:
  assumes "1 \<le> k"
  shows "set (findCommonSubstrings (replicate n x) (replicate n x) k)
           = (\<lambda>d. replicate d x) ` {nat k..n}"
proof (intro set_eqI iffI)
  fix s assume "s \<in> set (findCommonSubstrings (replicate n x) (replicate n x) k)"
  then obtain p where p: "fst p \<le> n" "snd p \<le> n"
      "k \<le> int (lcsuf (replicate n x) (replicate n x) (fst p) (snd p))"
      and s: "s = fcs_hit (replicate n x) (replicate n x) p"
    unfolding fcs_set fcs_hits_def by auto
  have "s = replicate (min (fst p) (snd p)) x" using s p(1,2) by (simp add: fcs_hit_replicate)
  moreover have "min (fst p) (snd p) \<in> {nat k..n}"
    using p by (simp add: lcsuf_replicate) linarith
  ultimately show "s \<in> (\<lambda>d. replicate d x) ` {nat k..n}" by blast
next
  fix s assume "s \<in> (\<lambda>d. replicate d x) ` {nat k..n}"
  then obtain d where d: "nat k \<le> d" "d \<le> n" and s: "s = replicate d x" by auto
  let ?p = "(d, d)"
  have l: "lcsuf (replicate n x) (replicate n x) d d = d" using d by (simp add: lcsuf_replicate)
  have "s = fcs_hit (replicate n x) (replicate n x) ?p"
    using s d by (simp add: fcs_hit_replicate)
  moreover have "1 \<le> d" "k \<le> int d" using d assms by linarith+
  ultimately show "s \<in> set (findCommonSubstrings (replicate n x) (replicate n x) k)"
    unfolding fcs_set fcs_hits_def using d l by (intro image_eqI[of _ _ ?p]) auto
qed

lemma totalLength_replicate:
  assumes "1 \<le> k"
  shows "totalLength (replicate n x) (replicate n x) k = int (\<Sum>{nat k..n})"
proof -
  have inj: "inj_on (\<lambda>d. replicate d x) {nat k..n}"
    by (rule inj_onI) (metis length_replicate)
  show ?thesis
    unfolding totalLength_def fcs_replicate_set[OF assms] sum.reindex[OF inj]
    by (simp add: o_def)
qed

lemma similarityMetric_wraps:
  "similarityMetric (replicate 65536 c) (replicate 65536 c) 1 = Val (- 65535 / 2)"
  "similarityMetric (replicate 65536 c) (replicate 65536 c) 5 = Val (- 1073725445 / 32768)"
proof -
  have n: "replicate 65536 c \<noteq> [] \<or> replicate 65536 c \<noteq> []" by simp
  have "totalLength (replicate 65536 c) (replicate 65536 c) 1 = 2147516416"
    by (simp add: totalLength_replicate Sum_Icc_nat)
  then show "similarityMetric (replicate 65536 c) (replicate 65536 c) 1 = Val (- 65535 / 2)"
    by (simp add: similarityMetric_Val[OF n] int32_def)
  have "totalLength (replicate 65536 c) (replicate 65536 c) 5 = 2147516406"
    by (simp add: totalLength_replicate Sum_Icc_nat)
  then show "similarityMetric (replicate 65536 c) (replicate 65536 c) 5
      = Val (- 1073725445 / 32768)"
    by (simp add: similarityMetric_Val[OF n] int32_def)
qed

text \<open>
  Claim C2, amended. When at least one of the two texts is not empty, the ratio is a finite
  value. It is not negative when the lengths of the substrings found total at most
  \<open>2^31 - 1\<close>, the largest \<^verbatim>\<open>int\<close>; this is so whenever the product of the two text lengths
  and the shorter of them is at most \<open>2^31 - 1\<close>. The ratio has no upper bound of 1.
\<close>

theorem similarityMetric_nonneg:
  assumes "A \<noteq> [] \<or> B \<noteq> []"
  shows "(\<exists>r. similarityMetric A B k = Val r) \<and>
         (int (length A * length B * min (length A) (length B)) \<le> 2147483647 \<longrightarrow>
            (\<Sum>s\<leftarrow>findCommonSubstrings A B k. int (length s)) \<le> 2147483647) \<and>
         ((\<Sum>s\<leftarrow>findCommonSubstrings A B k. int (length s)) \<le> 2147483647 \<longrightarrow>
            (\<exists>r. similarityMetric A B k = Val r \<and> 0 \<le> r))"
proof -
  have f: "\<exists>r. similarityMetric A B k = Val r" by (simp add: similarityMetric_Val[OF assms])
  have s: "(\<Sum>s\<leftarrow>findCommonSubstrings A B k. int (length s)) \<le> 2147483647"
    if "int (length A * length B * min (length A) (length B)) \<le> 2147483647"
    using that totalLength_le_size[of A B k] by (simp only: sum_list_totalLength)
  have p: "\<exists>r. similarityMetric A B k = Val r \<and> 0 \<le> r"
    if "(\<Sum>s\<leftarrow>findCommonSubstrings A B k. int (length s)) \<le> 2147483647"
  proof -
    from that have "totalLength A B k \<le> 2147483647" by (simp only: sum_list_totalLength)
    with totalLength_nonneg[of A B k] have "int32 (totalLength A B k) = totalLength A B k"
      by (intro int32_id) simp_all
    with totalLength_nonneg[of A B k] show ?thesis by (simp add: similarityMetric_Val[OF assms])
  qed
  from f s p show ?thesis by blast
qed

theorem similarityMetric_nonneg_witness:
  "''abcde'' \<noteq> [] \<and>
   int (length ''abcde'' * length ''abcxy'' * min (length ''abcde'') (length ''abcxy''))
     \<le> 2147483647 \<and>
   (\<Sum>s\<leftarrow>findCommonSubstrings ''abcde'' ''abcxy'' 2. int (length s)) \<le> 2147483647 \<and>
   (\<exists>r. similarityMetric ''abcde'' ''abcxy'' 2 = Val r \<and> 0 \<le> r)"
proof -
  have h: "''abcde'' \<noteq> [] \<or> ''abcxy'' \<noteq> []" by simp
  have b: "int (length ''abcde'' * length ''abcxy'' * min (length ''abcde'') (length ''abcxy''))
     \<le> 2147483647" by simp
  from similarityMetric_nonneg[OF h, of 2] h b show ?thesis by blast
qed

text \<open>
  Claim C8. \<^verbatim>\<open>similarityMetric(A, B, k) == similarityMetric(B, A, k)\<close> is claimed for every
  pair of texts. For two empty texts both calls divide 0 by 0 and return NaN, and the
  comparison \<^verbatim>\<open>==\<close> of NaN with NaN is false.
\<close>

theorem similarityMetric_sym_empty:
  "\<not> double_eq (similarityMetric [] [] 5) (similarityMetric [] [] 5)"
  by (simp add: similarityMetric_NaN)

text \<open>
  Claim C8, amended. The two calls always return the same double; it is a finite value,
  for which \<^verbatim>\<open>==\<close> holds, as soon as one of the two texts is not empty, and NaN when both
  are empty.
\<close>

theorem similarityMetric_symmetric:
  "similarityMetric A B k = similarityMetric B A k \<and>
   (A \<noteq> [] \<or> B \<noteq> [] \<longrightarrow> double_eq (similarityMetric A B k) (similarityMetric B A k)) \<and>
   (A = [] \<and> B = [] \<longrightarrow> similarityMetric A B k = NaN) \<and>
   (A \<noteq> [] \<or> B \<noteq> [] \<longrightarrow> (\<exists>r. similarityMetric A B k = Val r))"
proof -
  have "double_eq (similarityMetric A B k) (similarityMetric B A k)" if "A \<noteq> [] \<or> B \<noteq> []"
    using similarityMetric_Val[OF that, of k] similarityMetric_sym[of A B k] by simp
  moreover have "\<exists>r. similarityMetric A B k = Val r" if "A \<noteq> [] \<or> B \<noteq> []"
    using similarityMetric_Val[OF that, of k] by simp
  ultimately show ?thesis
    using similarityMetric_sym[of A B k] similarityMetric_NaN[of k] by blast
qed

theorem similarityMetric_symmetric_witness:
  "''abcde'' \<noteq> [] \<and>
   double_eq (similarityMetric ''abcde'' ''abcxy'' 2) (similarityMetric ''abcxy'' ''abcde'' 2) \<and>
   similarityMetric [] [] 2 = NaN"
proof -
  have h: "''abcde'' \<noteq> [] \<or> ''abcxy'' \<noteq> []" by simp
  from similarityMetric_symmetric[of "''abcde''" "''abcxy''" 2]
    similarityMetric_symmetric[of "[]" "[]" 2] h
  show ?thesis by blast
qed

section \<open>Properties of editDistance\<close>

lemma ed_cell_inv:
  assumes inv: "ed_inv a b i j dp" and i: "i \<le> length a" and j: "j \<le> length b"
  shows "ed_inv a b i (Suc j) (ed_cell a b i j dp)"
proof -
  from inv have len: "length dp = Suc (length a)"
    and lens: "\<And>r. r \<le> length a \<Longrightarrow> length (dp ! r) = Suc (length b)"
    and cells: "\<And>r c. r \<le> length a \<Longrightarrow> c \<le> length b \<Longrightarrow> r < i \<or> (r = i \<and> c < j) \<Longrightarrow>
           dp ! r ! c = int (ed_val a b r c)"
    by (auto simp: ed_inv_def)
  have upd: "ed_cell a b i j dp = dp[i := (dp ! i)[j := int (ed_val a b i j)]]"
  proof (cases i)
    case 0
    then show ?thesis by (simp add: ed_cell_def)
  next
    case (Suc i')
    show ?thesis
    proof (cases j)
      case 0
      with Suc show ?thesis by (simp add: ed_cell_def)
    next
      case (Suc j')
      have c1: "dp ! i' ! j' = int (ed_val a b i' j')"
        using cells[of i' j'] i j \<open>i = Suc i'\<close> Suc by simp
      have c2: "dp ! i' ! j = int (ed_val a b i' j)"
        using cells[of i' j] i j \<open>i = Suc i'\<close> by simp
      have c3: "dp ! i ! j' = int (ed_val a b i j')"
        using cells[of i j'] i j Suc by simp
      show ?thesis
        using c1 c2 c3 unfolding ed_cell_def \<open>i = Suc i'\<close> Suc by (simp add: of_nat_min)
    qed
  qed
  let ?dp = "dp[i := (dp ! i)[j := int (ed_val a b i j)]]"
  have b1: "length ?dp = Suc (length a)" using len by simp
  have b2: "\<forall>r \<le> length a. length (?dp ! r) = Suc (length b)"
    using len lens i by (auto simp: nth_list_update)
  have b3: "?dp ! r ! c = int (ed_val a b r c)"
    if rc: "r \<le> length a" "c \<le> length b" "r < i \<or> (r = i \<and> c < Suc j)" for r c
  proof (cases "r = i \<and> c = j")
    case True
    then show ?thesis using len lens i j by (simp add: nth_list_update)
  next
    case False
    with rc have "r < i \<or> (r = i \<and> c < j)" by auto
    from cells[OF rc(1,2) this] False show ?thesis
      using len lens i j by (auto simp: nth_list_update)
  qed
  show ?thesis unfolding upd ed_inv_def using b1 b2 b3 by blast
qed

lemma ed_row_inv_aux:
  assumes inv: "ed_inv a b i 0 dp" and i: "i \<le> length a"
  shows "j \<le> Suc (length b) \<Longrightarrow> ed_inv a b i j (fold (ed_cell a b i) [0..<j] dp)"
proof (induction j)
  case 0
  with inv show ?case by simp
next
  case (Suc j)
  then have "ed_inv a b i j (fold (ed_cell a b i) [0..<j] dp)" by simp
  from ed_cell_inv[OF this i] Suc.prems show ?case by simp
qed

lemma ed_row_inv:
  assumes "ed_inv a b i 0 dp" and "i \<le> length a"
  shows "ed_inv a b (Suc i) 0 (ed_row a b i dp)"
proof -
  have "ed_inv a b i (Suc (length b)) (ed_row a b i dp)"
    using ed_row_inv_aux[OF assms, of "Suc (length b)"] by (simp add: ed_row_def)
  then have len: "length (ed_row a b i dp) = Suc (length a)"
    and lens: "\<And>r. r \<le> length a \<Longrightarrow> length (ed_row a b i dp ! r) = Suc (length b)"
    and cells: "\<And>r c. r \<le> length a \<Longrightarrow> c \<le> length b \<Longrightarrow> r < i \<or> (r = i \<and> c < Suc (length b)) \<Longrightarrow>
           ed_row a b i dp ! r ! c = int (ed_val a b r c)"
    by (auto simp: ed_inv_def)
  have "ed_row a b i dp ! r ! c = int (ed_val a b r c)"
    if "r \<le> length a" "c \<le> length b" "r < Suc i" for r c
    using cells[of r c] that by (cases "r < i") auto
  with len lens show ?thesis by (simp add: ed_inv_def)
qed

lemma ed_table_inv_aux:
  "i \<le> Suc (length a) \<Longrightarrow>
   ed_inv a b i 0 (fold (ed_row a b) [0..<i] (replicate (length a + 1) (replicate (length b + 1) 0)))"
proof (induction i)
  case 0
  have l: "length (replicate (length a + 1) (replicate (length b + 1) (0::int)) ! r) = Suc (length b)"
    if "r \<le> length a" for r
    using that by (simp del: replicate_Suc add: Suc_eq_plus1[symmetric])
  show ?case unfolding ed_inv_def using l by simp
next
  case (Suc i)
  then have "ed_inv a b i 0
      (fold (ed_row a b) [0..<i] (replicate (length a + 1) (replicate (length b + 1) 0)))"
    by simp
  from ed_row_inv[OF this] Suc.prems show ?case by simp
qed

lemma editDistance_ed_val: "editDistance a b = int (ed_val a b (length a) (length b))"
  using ed_table_inv_aux[of "Suc (length a)" a b]
  by (simp add: editDistance_def ed_table_def Let_def ed_inv_def)

lemma ed_val_lev:
  "i \<le> length a \<Longrightarrow> j \<le> length b \<Longrightarrow> ed_val a b i j = lev (rev (take i a)) (rev (take j b))"
proof (induction a b i j rule: ed_val.induct)
  case (1 a b j)
  then show ?case by simp
next
  case (2 a b i)
  then show ?case by (cases "rev (take (Suc i) a)") (auto simp: take_Suc_conv_app_nth)
next
  case (3 a b i j)
  then show ?case by (simp add: take_Suc_conv_app_nth)
qed

lemma editDistance_lev: "editDistance a b = int (lev (rev a) (rev b))"
  by (simp add: editDistance_ed_val ed_val_lev)

lemma lev_Nil2 [simp]: "lev xs [] = length xs"
  by (cases xs) simp_all

lemma lev_sym: "lev xs ys = lev ys xs"
  by (induction xs ys rule: lev.induct) (auto simp: min.left_commute min.commute)

lemma lev_refl [simp]: "lev xs xs = 0"
  by (induction xs) simp_all

lemma lev_Cons_left: "lev (x # xs) ys \<le> Suc (lev xs ys) \<and> lev xs ys \<le> Suc (lev (x # xs) ys)"
proof (induction "length xs + length ys" arbitrary: xs ys x rule: less_induct)
  case less
  show ?case
  proof (cases ys)
    case Nil
    then show ?thesis by simp
  next
    case (Cons y ys')
    have l: "lev (z # xs) ys' \<le> Suc (lev xs ys') \<and> lev xs ys' \<le> Suc (lev (z # xs) ys')" for z
      using less[of xs ys' z] Cons by simp
    have "lev (z # ys') xs \<le> Suc (lev ys' xs) \<and> lev ys' xs \<le> Suc (lev (z # ys') xs)" for z
      using less[of ys' xs z] Cons by simp
    then have r: "lev xs (z # ys') \<le> Suc (lev xs ys') \<and> lev xs ys' \<le> Suc (lev xs (z # ys'))" for z
      by (simp add: lev_sym[of xs])
    show ?thesis using l[of x] r[of y] unfolding Cons by (auto simp: min_def)
  qed
qed

lemma lev_Cons_right: "lev xs (y # ys) \<le> Suc (lev xs ys) \<and> lev xs ys \<le> Suc (lev xs (y # ys))"
  using lev_Cons_left[of y ys xs] by (simp add: lev_sym[of xs])

lemma lev_sub_head: "lev (c # ys) zs \<le> Suc (lev (d # ys) zs)"
proof (induction zs)
  case Nil
  show ?case by simp
next
  case (Cons z zs)
  show ?case
    using Cons lev_Cons_left[of d ys zs] lev_Cons_right[of ys z zs]
    by (auto simp: min_def)
qed

lemma lev_cong_head:
  assumes "\<And>zs. lev us zs \<le> Suc (lev vs zs)"
  shows "lev (x # us) zs \<le> Suc (lev (x # vs) zs)"
proof (induction zs)
  case Nil
  show ?case using assms[of "[]"] by simp
next
  case (Cons z zs)
  show ?case using Cons assms[of "z # zs"] assms[of zs] by (auto simp: min_def)
qed

lemma lev_cong_prefix:
  assumes "\<And>zs. lev us zs \<le> Suc (lev vs zs)"
  shows "lev (xs @ us) zs \<le> Suc (lev (xs @ vs) zs)"
proof (induction xs arbitrary: zs)
  case Nil
  show ?case using assms by simp
next
  case (Cons x xs)
  show ?case using lev_cong_head[of "xs @ us" "xs @ vs" x zs] Cons by simp
qed

lemma lev_edit1: "edit1 us vs \<Longrightarrow> lev us zs \<le> Suc (lev vs zs)"
proof (induction rule: edit1.induct)
  case (ins xs ys c)
  show ?case by (rule lev_cong_prefix) (simp add: lev_Cons_left)
next
  case (del xs c ys)
  show ?case by (rule lev_cong_prefix) (simp add: lev_Cons_left)
next
  case (sub xs c ys d)
  show ?case by (rule lev_cong_prefix) (rule lev_sub_head)
qed

lemma lev_path: "(edit1 ^^ n) us vs \<Longrightarrow> lev us zs \<le> n + lev vs zs"
proof (induction n arbitrary: vs)
  case 0
  then show ?case by simp
next
  case (Suc n)
  then obtain ws where "(edit1 ^^ n) us ws" "edit1 ws vs" by auto
  with Suc.IH[of ws] lev_edit1[of ws vs zs] show ?case by simp
qed

lemma lev_lower: "(edit1 ^^ n) us vs \<Longrightarrow> lev us vs \<le> n"
  using lev_path[of n us vs vs] by simp

lemma edit1_Cons: "edit1 us vs \<Longrightarrow> edit1 (x # us) (x # vs)"
proof (induction rule: edit1.induct)
  case (ins xs ys c)
  show ?case using edit1.ins[of "x # xs" ys c] by simp
next
  case (del xs c ys)
  show ?case using edit1.del[of "x # xs" c ys] by simp
next
  case (sub xs c ys d)
  show ?case using edit1.sub[of "x # xs" c ys d] by simp
qed

lemma edit1_head:
  "edit1 ys (c # ys)" "edit1 (c # ys) ys" "edit1 (c # ys) (d # ys)"
  using edit1.ins[of "[]" ys c] edit1.del[of "[]" c ys] edit1.sub[of "[]" c ys d] by simp_all

lemma path_Cons: "(edit1 ^^ n) us vs \<Longrightarrow> (edit1 ^^ n) (x # us) (x # vs)"
proof (induction n arbitrary: vs)
  case 0
  then show ?case by simp
next
  case (Suc n)
  then obtain ws where "(edit1 ^^ n) us ws" "edit1 ws vs" by auto
  with Suc.IH[of ws] edit1_Cons[of ws vs x] show ?case by auto
qed

lemma path_insert_all: "(edit1 ^^ length ys) [] ys"
proof (induction ys)
  case Nil
  show ?case by simp
next
  case (Cons y ys)
  have "edit1 [] [y]" by (rule edit1_head(1))
  moreover have "(edit1 ^^ length ys) [y] (y # ys)" using Cons by (rule path_Cons)
  ultimately have "(edit1 ^^ Suc (length ys)) [] (y # ys)" by (rule relpowp_Suc_I2)
  then show ?case by simp
qed

lemma path_delete_all: "(edit1 ^^ length xs) xs []"
proof (induction xs)
  case Nil
  show ?case by simp
next
  case (Cons x xs)
  have "edit1 (x # xs) xs" by (rule edit1_head(2))
  then have "(edit1 ^^ Suc (length xs)) (x # xs) []" using Cons by (rule relpowp_Suc_I2)
  then show ?case by simp
qed

lemma lev_upper: "(edit1 ^^ lev xs ys) xs ys"
proof (induction xs ys rule: lev.induct)
  case (1 ys)
  show ?case using path_insert_all by simp
next
  case (2 x xs)
  show ?case using path_delete_all[of "x # xs"] by simp
next
  case (3 x xs y ys)
  show ?case
  proof (cases "x = y")
    case True
    with 3 show ?thesis by (simp add: path_Cons)
  next
    case False
    let ?m = "min (lev xs (y # ys)) (min (lev (x # xs) ys) (lev xs ys))"
    have "(edit1 ^^ Suc ?m) (x # xs) (y # ys)"
    proof -
      have "?m = lev xs (y # ys) \<or> ?m = lev (x # xs) ys \<or> ?m = lev xs ys"
        by (simp add: min_def)
      then show ?thesis
      proof (elim disjE)
        assume m: "?m = lev xs (y # ys)"
        have "edit1 (x # xs) xs" by (rule edit1_head(2))
        moreover have "(edit1 ^^ ?m) xs (y # ys)" using "3.IH"(2)[OF False] m by simp
        ultimately show ?thesis by (rule relpowp_Suc_I2)
      next
        assume m: "?m = lev (x # xs) ys"
        have "(edit1 ^^ ?m) (x # xs) ys" using "3.IH"(3)[OF False] m by simp
        moreover have "edit1 ys (y # ys)" by (rule edit1_head(1))
        ultimately show ?thesis by (rule relpowp_Suc_I)
      next
        assume m: "?m = lev xs ys"
        have "edit1 (x # xs) (y # xs)" by (rule edit1_head(3))
        moreover have "(edit1 ^^ ?m) (y # xs) (y # ys)"
          using "3.IH"(4)[OF False] m by (simp add: path_Cons)
        ultimately show ?thesis by (rule relpowp_Suc_I2)
      qed
    qed
    with False show ?thesis by simp
  qed
qed

lemma edit1_rev: "edit1 us vs \<Longrightarrow> edit1 (rev us) (rev vs)"
proof (induction rule: edit1.induct)
  case (ins xs ys c)
  show ?case using edit1.ins[of "rev ys" "rev xs" c] by simp
next
  case (del xs c ys)
  show ?case using edit1.del[of "rev ys" c "rev xs"] by simp
next
  case (sub xs c ys d)
  show ?case using edit1.sub[of "rev ys" c "rev xs" d] by simp
qed

lemma path_rev: "(edit1 ^^ n) us vs \<Longrightarrow> (edit1 ^^ n) (rev us) (rev vs)"
proof (induction n arbitrary: vs)
  case 0
  then show ?case by simp
next
  case (Suc n)
  then obtain ws where "(edit1 ^^ n) us ws" "edit1 ws vs" by auto
  with Suc.IH[of ws] edit1_rev[of ws vs] show ?case by auto
qed

lemma editDistance_path: "(edit1 ^^ nat (editDistance a b)) a b"
  using path_rev[OF lev_upper[of "rev a" "rev b"]] by (simp add: editDistance_lev)

lemma editDistance_lower: "(edit1 ^^ n) a b \<Longrightarrow> editDistance a b \<le> int n"
  using lev_lower[OF path_rev, of n a b] by (simp add: editDistance_lev)

lemma editDistance_nonneg: "0 \<le> editDistance a b"
  by (simp add: editDistance_lev)

text \<open>
  Claim C3. \<^const>\<open>editDistance\<close> of \<open>A\<close> and \<open>B\<close> is the minimum number of single-character
  insertions, deletions and substitutions that transform \<open>A\<close> into \<open>B\<close>: that many edits
  do transform \<open>A\<close> into \<open>B\<close>, and no sequence of edits from \<open>A\<close> to \<open>B\<close> is shorter. The
  distance between \<open>kitten\<close> and \<open>sitting\<close> is 3.
\<close>

theorem editDistance_minimal:
  "0 \<le> editDistance A B \<and> (edit1 ^^ nat (editDistance A B)) A B \<and>
   (\<forall>n. (edit1 ^^ n) A B \<longrightarrow> editDistance A B \<le> int n) \<and>
   editDistance ''kitten'' ''sitting'' = 3"
proof -
  have "editDistance ''kitten'' ''sitting'' = 3" by code_simp
  then show ?thesis
    using editDistance_nonneg editDistance_path editDistance_lower by blast
qed

theorem editDistance_minimal_witness:
  "(edit1 ^^ Suc 0) ''a'' ''b'' \<and> editDistance ''a'' ''b'' \<le> int (Suc 0) \<and>
   (edit1 ^^ nat (editDistance ''a'' ''b'')) ''a'' ''b''"
proof -
  have h: "(edit1 ^^ Suc 0) ''a'' ''b''"
    using edit1_head(3)[of "CHR ''a''" "[]" "CHR ''b''"] by auto
  from editDistance_minimal[of "''a''" "''b''"] h show ?thesis by blast
qed

text \<open>
  Claim C9. The edit distance satisfies the triangle inequality.
\<close>

theorem editDistance_triangle:
  "editDistance A C \<le> editDistance A B + editDistance B C"
proof -
  have "(edit1 ^^ (nat (editDistance A B) + nat (editDistance B C))) A C"
    using editDistance_path[of A B] editDistance_path[of B C]
    by (auto simp: relpowp_add)
  from editDistance_lower[OF this] show ?thesis
    using editDistance_nonneg[of A B] editDistance_nonneg[of B C] by simp
qed

section \<open>Properties of broderContainment, empty texts and identical texts\<close>

lemma fold_insert_set:
  "set (fold (\<lambda>j acc. List.insert (f j) acc) js acc0) = f ` set js \<union> set acc0"
  by (induction js arbitrary: acc0) auto

lemma fold_insert_distinct:
  "distinct acc0 \<Longrightarrow> distinct (fold (\<lambda>j acc. List.insert (f j) acc) js acc0)"
  by (induction js arbitrary: acc0) auto

lemma fold_fold_insert_set:
  "set (fold (\<lambda>i acc. fold (\<lambda>j acc'. List.insert (f i j) acc') (js i) acc) is acc0)
     = (\<Union>i \<in> set is. f i ` set (js i)) \<union> set acc0"
  by (induction "is" arbitrary: acc0) (auto simp: fold_insert_set)

lemma fold_fold_insert_distinct:
  "distinct acc0 \<Longrightarrow>
   distinct (fold (\<lambda>i acc. fold (\<lambda>j acc'. List.insert (f i j) acc') (js i) acc) is acc0)"
  by (induction "is" arbitrary: acc0) (auto simp: fold_insert_distinct)

lemma all_substrings_set:
  "set (all_substrings s) = {substr s i (j - i) | i j. i < j \<and> j \<le> length s}"
proof -
  have U: "set (all_substrings s) =
      (\<Union>i \<in> {0..<length s}. (\<lambda>j. substr s i (j - i)) ` {Suc i..<Suc (length s)})"
    unfolding all_substrings_def fold_fold_insert_set set_upt by (simp del: atLeastLessThanSuc)
  show ?thesis
  proof (intro set_eqI iffI)
    fix x assume "x \<in> set (all_substrings s)"
    then obtain i j where "i \<in> {0..<length s}" "j \<in> {Suc i..<Suc (length s)}"
        "x = substr s i (j - i)"
      unfolding U by blast
    then have "x = substr s i (j - i) \<and> i < j \<and> j \<le> length s"
      by (simp del: atLeastLessThanSuc)
    then show "x \<in> {substr s i (j - i) | i j. i < j \<and> j \<le> length s}" by blast
  next
    fix x assume "x \<in> {substr s i (j - i) | i j. i < j \<and> j \<le> length s}"
    then obtain i j where ij: "i < j" "j \<le> length s" and x: "x = substr s i (j - i)" by blast
    then have "i \<in> {0..<length s}" "j \<in> {Suc i..<Suc (length s)}"
      by (auto simp del: atLeastLessThanSuc)
    then show "x \<in> set (all_substrings s)" unfolding U x by blast
  qed
qed

lemma all_substrings_distinct: "distinct (all_substrings s)"
  unfolding all_substrings_def by (rule fold_fold_insert_distinct) simp

lemma all_substrings_nonempty: "s \<noteq> [] \<Longrightarrow> all_substrings s \<noteq> []"
proof -
  assume "s \<noteq> []"
  then have "substr s 0 (1 - 0) \<in> set (all_substrings s)"
    unfolding all_substrings_set by (intro CollectI exI[of _ 0] exI[of _ 1]) (cases s, auto)
  then show ?thesis by auto
qed

lemma count_all_contained:
  "\<forall>s \<in> set xs. s \<in> S \<Longrightarrow>
   fold (\<lambda>s c. if s \<in> S then c + 1 else c) xs (c0::int) = c0 + int (length xs)"
  by (induction xs arbitrary: c0) auto

lemma broderContainment_same: "a \<noteq> [] \<Longrightarrow> broderContainment a a = Val 1"
  using all_substrings_nonempty[of a]
  by (simp add: broderContainment_def Let_def count_all_contained double_div_def)

lemma broderContainment_empty: "broderContainment [] b = NaN"
  by (simp add: broderContainment_def all_substrings_def double_div_def)

lemma editDistance_empty: "editDistance [] [] = 0"
  by (simp add: editDistance_def ed_table_def ed_row_def ed_cell_def)

text \<open>
  Claim C4. With two empty texts the three metrics are claimed to resolve to 0.0, 0 and 0.0
  (or to an explicit error), never to an undefined value. The code has no guard for empty
  texts: \<^const>\<open>similarityMetric\<close> and \<^const>\<open>broderContainment\<close> divide 0 by 0 in double
  arithmetic and return NaN.
\<close>

theorem empty_texts_undefined:
  "similarityMetric [] [] 5 = NaN \<and> similarityMetric [] [] 5 \<noteq> Val 0 \<and>
   broderContainment [] [] = NaN \<and> broderContainment [] [] \<noteq> Val 0"
  by code_simp

text \<open>
  Claim C4, amended. With two empty texts \<^const>\<open>editDistance\<close> returns 0, and
  \<^const>\<open>similarityMetric\<close> (for every minimum length) and \<^const>\<open>broderContainment\<close> return
  NaN; no error is raised.
\<close>

theorem empty_texts_values:
  "similarityMetric [] [] k = NaN \<and> editDistance [] [] = 0 \<and> broderContainment [] [] = NaN"
  by (simp add: similarityMetric_NaN editDistance_empty broderContainment_empty)

text \<open>
  Claim C5. \<^verbatim>\<open>similarityMetric(A, A, k) == 1.0\<close> is claimed for \<open>k \<le> len(A)\<close>, and
  \<^verbatim>\<open>broderContainment(A, A) == 1.0\<close> for every text. For \<open>ab\<close> against itself with \<open>k = 1\<close>
  the substrings found are \<open>a\<close> and \<open>ab\<close>, of total length 3, and the ratio is \<open>3/2\<close>; for the
  empty text the containment is NaN.
\<close>

lemma fcs_ab_self: "findCommonSubstrings ''ab'' ''ab'' 1 = [''ab'', ''a'']"
  by code_simp

theorem identity_similarity_above_one:
  "(1::int) \<le> int (length ''ab'') \<and> similarityMetric ''ab'' ''ab'' 1 = Val (3 / 2) \<and>
   \<not> double_eq (similarityMetric ''ab'' ''ab'' 1) (Val 1) \<and>
   \<not> double_eq (broderContainment [] []) (Val 1)"
  by (simp add: similarityMetric_def fcs_ab_self int32_def double_div_def broderContainment_empty)

text \<open>
  Claim C5, amended. For every text \<open>A\<close>, \<^const>\<open>editDistance\<close> of \<open>A\<close> and \<open>A\<close> is 0. For
  every text \<open>A\<close> that is not empty, \<^const>\<open>broderContainment\<close> of \<open>A\<close> and \<open>A\<close> is 1.0;
  \<^const>\<open>similarityMetric\<close> of \<open>A\<close> and \<open>A\<close> is at least 1.0 for every \<open>k \<le> len(A)\<close> (the whole
  text is among the common substrings) when the lengths of the substrings found total at
  most \<open>2^31 - 1\<close>, which is so whenever the cube of \<open>len(A)\<close> is at most \<open>2^31 - 1\<close>; and it is
  exactly 1.0 for \<open>k = len(A)\<close> when \<open>len(A)\<close> is at most \<open>2^31 - 1\<close>.
\<close>

theorem identity_metrics:
  "editDistance A A = 0 \<and>
   (A \<noteq> [] \<longrightarrow>
      broderContainment A A = Val 1 \<and>
      (int (length A * length A * length A) \<le> 2147483647 \<longrightarrow>
         (\<Sum>s\<leftarrow>findCommonSubstrings A A k. int (length s)) \<le> 2147483647) \<and>
      (k \<le> int (length A) \<and>
       (\<Sum>s\<leftarrow>findCommonSubstrings A A k. int (length s)) \<le> 2147483647 \<longrightarrow>
         (\<exists>r. similarityMetric A A k = Val r \<and> 1 \<le> r)) \<and>
      (int (length A) \<le> 2147483647 \<longrightarrow> similarityMetric A A (int (length A)) = Val 1))"
proof -
  have e: "editDistance A A = 0" by (simp add: editDistance_lev)
  have b: "(\<Sum>s\<leftarrow>findCommonSubstrings A A k. int (length s)) \<le> 2147483647"
    if "int (length A * length A * length A) \<le> 2147483647"
    using that totalLength_le_size[of A A k] by (simp add: sum_list_totalLength)
  have s: "\<exists>r. similarityMetric A A k = Val r \<and> 1 \<le> r"
    if ne: "A \<noteq> []" and k: "k \<le> int (length A)"
      and t: "(\<Sum>s\<leftarrow>findCommonSubstrings A A k. int (length s)) \<le> 2147483647"
  proof -
    from t have "totalLength A A k \<le> 2147483647" by (simp only: sum_list_totalLength)
    with totalLength_nonneg[of A A k] have "int32 (totalLength A A k) = totalLength A A k"
      by (intro int32_id) simp_all
    with ne totalLength_same_ge[OF ne k] show ?thesis by (simp add: similarityMetric_Val)
  qed
  have w: "similarityMetric A A (int (length A)) = Val 1"
    if ne: "A \<noteq> []" and l: "int (length A) \<le> 2147483647"
  proof -
    have "int32 (int (length A)) = int (length A)" using l by (intro int32_id) simp_all
    with ne show ?thesis by (simp add: similarityMetric_Val totalLength_same_eq)
  qed
  from e b s w broderContainment_same[of A] show ?thesis by blast
qed

theorem identity_metrics_witness:
  "''ab'' \<noteq> [] \<and> (1::int) \<le> int (length ''ab'') \<and>
   int (length ''ab'' * length ''ab'' * length ''ab'') \<le> 2147483647 \<and>
   int (length ''ab'') \<le> 2147483647 \<and>
   (\<Sum>s\<leftarrow>findCommonSubstrings ''ab'' ''ab'' 1. int (length s)) \<le> 2147483647 \<and>
   editDistance ''ab'' ''ab'' = 0 \<and>
   broderContainment ''ab'' ''ab'' = Val 1 \<and>
   (\<exists>r. similarityMetric ''ab'' ''ab'' 1 = Val r \<and> 1 \<le> r) \<and>
   similarityMetric ''ab'' ''ab'' (int (length ''ab'')) = Val 1"
proof -
  have h: "''ab'' \<noteq> []" "(1::int) \<le> int (length ''ab'')"
    "int (length ''ab'' * length ''ab'' * length ''ab'') \<le> 2147483647"
    "int (length ''ab'') \<le> 2147483647"
    by simp_all
  from identity_metrics[of "''ab''" 1] h show ?thesis by blast
qed

section \<open>Properties of generateSimilarityMatrix\<close>

lemma gsm_cell_inv:
  assumes inv: "gsm_inv docs k i j M" and ij: "i < j" "j < length docs"
  shows "gsm_inv docs k i (Suc j) (gsm_cell docs k i j M)"
proof -
  let ?n = "length docs"
  let ?s = "similarityMetric (docs ! i) (docs ! j) k"
  from inv have len: "length M = ?n"
    and lens: "\<And>r. r < ?n \<Longrightarrow> length (M ! r) = ?n"
    and cells: "\<And>r c. r < ?n \<Longrightarrow> c < ?n \<Longrightarrow>
           M ! r ! c = (if gsm_done i j r c then gsm_entry docs k r c else Val 0)"
    by (auto simp: gsm_inv_def)
  let ?M1 = "M[i := (M ! i)[j := ?s]]"
  let ?M2 = "?M1[j := (?M1 ! j)[i := ?s]]"
  have M2: "gsm_cell docs k i j M = ?M2" by (simp add: gsm_cell_def Let_def)
  have b1: "length ?M2 = ?n" using len by simp
  have b2: "\<forall>r < ?n. length (?M2 ! r) = ?n"
    using len lens ij by (auto simp: nth_list_update)
  have val: "?M2 ! r ! c = (if (r = i \<and> c = j) \<or> (r = j \<and> c = i) then ?s else M ! r ! c)"
    if "r < ?n" "c < ?n" for r c
    using that len lens ij by (auto simp: nth_list_update)
  have b3: "?M2 ! r ! c = (if gsm_done i (Suc j) r c then gsm_entry docs k r c else Val 0)"
    if rc: "r < ?n" "c < ?n" for r c
  proof (cases "(r = i \<and> c = j) \<or> (r = j \<and> c = i)")
    case True
    then have "gsm_done i (Suc j) r c" "gsm_entry docs k r c = ?s"
      using ij by (auto simp: gsm_done_def gsm_entry_def min_def max_def)
    with True val[OF rc] show ?thesis by simp
  next
    case False
    then have "gsm_done i (Suc j) r c = gsm_done i j r c"
      using ij by (auto simp: gsm_done_def min_def max_def less_Suc_eq)
    moreover have "?M2 ! r ! c = M ! r ! c"
      unfolding val[OF rc] using False by (rule if_not_P)
    ultimately show ?thesis using cells[OF rc] by simp
  qed
  show ?thesis unfolding M2 gsm_inv_def using b1 b2 b3 by blast
qed

lemma gsm_row_inv_aux:
  assumes inv: "gsm_inv docs k i (Suc i) M"
  shows "Suc i \<le> j \<Longrightarrow> j \<le> length docs \<Longrightarrow>
         gsm_inv docs k i j (fold (gsm_cell docs k i) [Suc i..<j] M)"
proof (induction j)
  case 0
  then show ?case by simp
next
  case (Suc j)
  show ?case
  proof (cases "Suc i \<le> j")
    case True
    with Suc have "gsm_inv docs k i j (fold (gsm_cell docs k i) [Suc i..<j] M)" by simp
    from gsm_cell_inv[OF this] True Suc.prems show ?thesis by simp
  next
    case False
    with Suc.prems have "j = i" by simp
    with inv show ?thesis by simp
  qed
qed

lemma gsm_done_next: "gsm_done (Suc i) (Suc (Suc i)) r c = (min r c < max r c \<and> min r c \<le> i)"
  by (auto simp: gsm_done_def)

lemma gsm_row_inv:
  assumes "gsm_inv docs k i (Suc i) M" and "i < length docs"
  shows "gsm_inv docs k (Suc i) (Suc (Suc i)) (gsm_row docs k i M)"
proof -
  have "gsm_inv docs k i (length docs) (gsm_row docs k i M)"
    using gsm_row_inv_aux[OF assms(1), of "length docs"] assms(2) by (simp add: gsm_row_def)
  moreover have "gsm_done (Suc i) (Suc (Suc i)) r c = gsm_done i (length docs) r c"
    if "r < length docs" "c < length docs" for r c
    using that unfolding gsm_done_next by (auto simp: gsm_done_def)
  ultimately show ?thesis by (simp add: gsm_inv_def)
qed

lemma gsm_table_inv_aux:
  "i \<le> length docs \<Longrightarrow>
   gsm_inv docs k i (Suc i)
     (fold (gsm_row docs k) [0..<i] (replicate (length docs) (replicate (length docs) (Val 0))))"
proof (induction i)
  case 0
  show ?case by (simp add: gsm_inv_def gsm_done_def)
next
  case (Suc i)
  then have "gsm_inv docs k i (Suc i)
     (fold (gsm_row docs k) [0..<i] (replicate (length docs) (replicate (length docs) (Val 0))))"
    by simp
  from gsm_row_inv[OF this] Suc.prems show ?case by simp
qed

lemma gsm_result:
  assumes "i < length docs" "j < length docs"
  shows "generateSimilarityMatrix docs k ! i ! j =
           (if i = j then Val 0 else gsm_entry docs k i j)"
proof -
  have "gsm_inv docs k (length docs) (Suc (length docs)) (generateSimilarityMatrix docs k)"
    using gsm_table_inv_aux[of "length docs" docs k]
    by (simp add: generateSimilarityMatrix_def Let_def)
  moreover have "gsm_done (length docs) (Suc (length docs)) i j = (i \<noteq> j)"
    using assms by (auto simp: gsm_done_def)
  ultimately show ?thesis using assms by (simp add: gsm_inv_def)
qed

lemma gsm_dims:
  "length (generateSimilarityMatrix docs k) = length docs \<and>
   (\<forall>r < length docs. length (generateSimilarityMatrix docs k ! r) = length docs)"
  using gsm_table_inv_aux[of "length docs" docs k]
  by (simp add: generateSimilarityMatrix_def Let_def gsm_inv_def)

lemma gsm_entry_sym: "gsm_entry docs k i j = gsm_entry docs k j i"
  by (simp add: gsm_entry_def min.commute max.commute)

text \<open>
  Claim C6. \<^verbatim>\<open>matrix[i][j] == matrix[j][i]\<close> is claimed for every vector of documents. When
  two documents are empty their cell holds NaN on both sides of the diagonal, and the
  comparison \<^verbatim>\<open>==\<close> of NaN with NaN is false.
\<close>

theorem matrix_sym_two_empty:
  "\<not> double_eq (generateSimilarityMatrix ['''', ''''] 5 ! 0 ! 1)
               (generateSimilarityMatrix ['''', ''''] 5 ! 1 ! 0)"
  by code_simp

text \<open>
  Claim C6, amended. The matrix has as many rows and columns as there are documents. For
  all valid \<open>i\<close> and \<open>j\<close> the cells \<open>(i, j)\<close> and \<open>(j, i)\<close> hold the same
  double and the diagonal is 0.0; \<^verbatim>\<open>matrix[i][j] == matrix[j][i]\<close> holds whenever documents
  \<open>i\<close> and \<open>j\<close> are not both empty; when both are empty and \<open>i \<noteq> j\<close>, the two cells hold NaN.
\<close>

theorem generateSimilarityMatrix_symmetric:
  assumes "i < length docs" and "j < length docs"
  shows "length (generateSimilarityMatrix docs k) = length docs \<and>
         length (generateSimilarityMatrix docs k ! i) = length docs \<and>
         generateSimilarityMatrix docs k ! i ! j = generateSimilarityMatrix docs k ! j ! i \<and>
         double_eq (generateSimilarityMatrix docs k ! i ! i) (Val 0) \<and>
         (docs ! i \<noteq> [] \<or> docs ! j \<noteq> [] \<longrightarrow>
            double_eq (generateSimilarityMatrix docs k ! i ! j)
                      (generateSimilarityMatrix docs k ! j ! i)) \<and>
         (i \<noteq> j \<and> docs ! i = [] \<and> docs ! j = [] \<longrightarrow>
            generateSimilarityMatrix docs k ! i ! j = NaN)"
proof -
  let ?M = "generateSimilarityMatrix docs k"
  have s: "?M ! i ! j = ?M ! j ! i"
    using assms gsm_entry_sym[of docs k i j] by (simp add: gsm_result)
  have d: "double_eq (?M ! i ! i) (Val 0)" using assms by (simp add: gsm_result)
  have e: "double_eq (?M ! i ! j) (?M ! j ! i)" if ne: "docs ! i \<noteq> [] \<or> docs ! j \<noteq> []"
  proof (cases "i = j")
    case True
    with assms show ?thesis by (simp add: gsm_result)
  next
    case False
    from ne have "docs ! min i j \<noteq> [] \<or> docs ! max i j \<noteq> []"
      by (auto simp: min_def max_def)
    from similarityMetric_Val[OF this, of k] obtain v where "gsm_entry docs k i j = Val v"
      by (simp add: gsm_entry_def)
    with False assms have a: "?M ! i ! j = Val v" by (simp add: gsm_result)
    have b: "?M ! j ! i = Val v" using a s by simp
    show ?thesis unfolding a b by simp
  qed
  have n: "?M ! i ! j = NaN" if "i \<noteq> j" "docs ! i = []" "docs ! j = []"
    using that assms by (simp add: gsm_result gsm_entry_def min_def max_def similarityMetric_NaN)
  from s d e n gsm_dims[of docs k] assms show ?thesis by blast
qed

theorem generateSimilarityMatrix_symmetric_witness:
  "(0::nat) < length [''abcde'', ''abcxy''] \<and> (1::nat) < length [''abcde'', ''abcxy''] \<and>
   [''abcde'', ''abcxy''] ! 0 \<noteq> [] \<and>
   double_eq (generateSimilarityMatrix [''abcde'', ''abcxy''] 2 ! 0 ! 1)
             (generateSimilarityMatrix [''abcde'', ''abcxy''] 2 ! 1 ! 0) \<and>
   double_eq (generateSimilarityMatrix [''abcde'', ''abcxy''] 2 ! 0 ! 0) (Val 0)"
proof -
  have h: "(0::nat) < length [''abcde'', ''abcxy'']" "(1::nat) < length [''abcde'', ''abcxy'']"
    "[''abcde'', ''abcxy''] ! 0 \<noteq> []"
    by simp_all
  from generateSimilarityMatrix_symmetric[OF h(1,2), of 2] h show ?thesis by blast
qed

section \<open>Properties of the ranked pair list\<close>

lemma fold_snoc_map: "fold (\<lambda>j ps'. ps' @ [f j]) js ps = ps @ map f js"
  by (induction js arbitrary: ps) simp_all

lemma pairsUpTo_Suc: "pairsUpTo n (Suc i) = pairsUpTo n i @ map (Pair i) [Suc i..<n]"
  by (simp add: pairsUpTo_def fold_snoc_map)

lemma pairsUpTo_set: "set (pairsUpTo n i) = {(a, b). a < i \<and> a < b \<and> b < n}"
proof (induction i)
  case 0
  show ?case by (simp add: pairsUpTo_def)
next
  case (Suc i)
  show ?case unfolding pairsUpTo_Suc using Suc by (auto simp: less_Suc_eq)
qed

lemma pairsUpTo_distinct: "distinct (pairsUpTo n i)"
proof (induction i)
  case 0
  show ?case by (simp add: pairsUpTo_def)
next
  case (Suc i)
  have "distinct (map (Pair i) [Suc i..<n])" by (simp add: distinct_map inj_on_def)
  with Suc show ?case unfolding pairsUpTo_Suc by (auto simp: pairsUpTo_set)
qed

lemma pairsUpTo_length: "i \<le> n \<Longrightarrow> 2 * length (pairsUpTo n i) + i * (i + 1) = 2 * i * n"
proof (induction i)
  case 0
  show ?case by (simp add: pairsUpTo_def)
next
  case (Suc i)
  then have IH: "2 * length (pairsUpTo n i) + i * (i + 1) = 2 * i * n" and i: "i < n" by simp_all
  have "length (pairsUpTo n (Suc i)) = length (pairsUpTo n i) + (n - Suc i)"
    by (simp add: pairsUpTo_Suc)
  with IH i show ?case by (simp add: algebra_simps)
qed

lemma allPairs_set: "set (allPairs n) = {(i, j). i < j \<and> j < n}"
  using pairsUpTo_set[of n n] by (auto simp: allPairs_def pairsUpTo_def)

lemma allPairs_distinct: "distinct (allPairs n)"
  using pairsUpTo_distinct[of n n] by (simp add: allPairs_def pairsUpTo_def)

lemma allPairs_length: "length (allPairs n) = n choose 2"
proof -
  have "2 * length (allPairs n) + n * (n + 1) = 2 * n * n"
    using pairsUpTo_length[of n n] by (simp add: allPairs_def pairsUpTo_def)
  then have "2 * length (allPairs n) = n * (n - 1)"
    by (cases n) (simp_all add: algebra_simps)
  then show ?thesis by (simp add: choose_two)
qed

lemma insert_by_mset: "mset (insert_by cmp x ys) = add_mset x (mset ys)"
  by (induction ys) simp_all

lemma fold_insert_by_mset: "mset (fold (insert_by cmp) xs acc) = mset xs + mset acc"
  by (induction xs arbitrary: acc) (simp_all add: insert_by_mset)

lemma std_sort_mset: "mset (std_sort cmp xs) = mset xs"
  by (simp add: std_sort_def fold_insert_by_mset)

lemma insert_by_set: "set (insert_by cmp x ys) = insert x (set ys)"
  by (induction ys) auto

lemma insert_by_sorted:
  assumes tot: "\<And>a b. a \<in> S \<Longrightarrow> b \<in> S \<Longrightarrow> \<not> cmp a b \<Longrightarrow> G b a"
    and imp: "\<And>a b. a \<in> S \<Longrightarrow> b \<in> S \<Longrightarrow> cmp a b \<Longrightarrow> G a b"
    and trans: "\<And>a b c. a \<in> S \<Longrightarrow> b \<in> S \<Longrightarrow> c \<in> S \<Longrightarrow> G a b \<Longrightarrow> G b c \<Longrightarrow> G a c"
  shows "x \<in> S \<Longrightarrow> set ys \<subseteq> S \<Longrightarrow> sorted_wrt G ys \<Longrightarrow> sorted_wrt G (insert_by cmp x ys)"
proof (induction ys)
  case Nil
  show ?case by simp
next
  case (Cons y ys)
  show ?case
  proof (cases "cmp x y")
    case True
    have "G x y" using imp[OF _ _ True] Cons.prems by simp
    moreover have "G x z" if "z \<in> set ys" for z
      using trans[of x y z] \<open>G x y\<close> that Cons.prems by auto
    ultimately show ?thesis using True Cons.prems by auto
  next
    case False
    have "G y x" using tot[OF _ _ False] Cons.prems by simp
    with False Cons show ?thesis by (auto simp: insert_by_set)
  qed
qed

lemma fold_insert_by_sorted:
  assumes tot: "\<And>a b. a \<in> S \<Longrightarrow> b \<in> S \<Longrightarrow> \<not> cmp a b \<Longrightarrow> G b a"
    and imp: "\<And>a b. a \<in> S \<Longrightarrow> b \<in> S \<Longrightarrow> cmp a b \<Longrightarrow> G a b"
    and trans: "\<And>a b c. a \<in> S \<Longrightarrow> b \<in> S \<Longrightarrow> c \<in> S \<Longrightarrow> G a b \<Longrightarrow> G b c \<Longrightarrow> G a c"
  shows "set xs \<subseteq> S \<Longrightarrow> set acc \<subseteq> S \<Longrightarrow> sorted_wrt G acc \<Longrightarrow>
         sorted_wrt G (fold (insert_by cmp) xs acc)"
proof (induction xs arbitrary: acc)
  case Nil
  then show ?case by simp
next
  case (Cons x xs)
  have "sorted_wrt G (insert_by cmp x acc)"
    using insert_by_sorted[of S cmp G x acc, OF tot imp trans] Cons.prems by simp
  moreover have "set (insert_by cmp x acc) \<subseteq> S" using Cons.prems by (simp add: insert_by_set)
  ultimately show ?case using Cons.IH[of "insert_by cmp x acc"] Cons.prems by simp
qed

lemma double_ge_Val [simp]: "double_ge (Val x) (Val y) = (y \<le> x)"
  by (auto simp: double_ge_def)

lemma std_sort_sorted:
  assumes "\<And>p. p \<in> set xs \<Longrightarrow> \<exists>v. f p = Val v"
  shows "sorted_wrt (\<lambda>p q. double_ge (f p) (f q)) (std_sort (\<lambda>a b. double_gt (f a) (f b)) xs)"
  unfolding std_sort_def
proof (rule fold_insert_by_sorted[where S = "set xs"])
  fix a b assume "a \<in> set xs" "b \<in> set xs" "\<not> double_gt (f a) (f b)"
  then show "double_ge (f b) (f a)" using assms[of a] assms[of b] by auto
next
  fix a b assume "a \<in> set xs" "b \<in> set xs" "double_gt (f a) (f b)"
  then show "double_ge (f a) (f b)" using assms[of a] assms[of b] by auto
next
  fix a b c assume "a \<in> set xs" "b \<in> set xs" "c \<in> set xs"
    "double_ge (f a) (f b)" "double_ge (f b) (f c)"
  then show "double_ge (f a) (f c)" using assms[of a] assms[of b] assms[of c] by auto
qed simp_all

lemma two_empty_filter:
  assumes "i < j" "j < length docs" "docs ! i = []" "docs ! j = []"
  shows "2 \<le> length (filter (\<lambda>d. d = []) docs)"
proof -
  have docs: "docs = take j docs @ docs ! j # drop (Suc j) docs"
    using assms(2) by (rule id_take_nth_drop)
  have "docs ! i \<in> set (take j docs)"
    using assms(1,2) by (auto simp: in_set_conv_nth intro!: exI[of _ i])
  then have "filter (\<lambda>d. d = []) (take j docs) \<noteq> []"
    using assms(3) by (auto simp: filter_empty_conv)
  then have "1 \<le> length (filter (\<lambda>d. d = []) (take j docs))"
    by (cases "filter (\<lambda>d. d = []) (take j docs)") simp_all
  moreover have "length (filter (\<lambda>d. d = []) docs) =
      length (filter (\<lambda>d. d = []) (take j docs)) + 1
        + length (filter (\<lambda>d. d = []) (drop (Suc j) docs))"
    by (subst docs) (simp add: assms(4))
  ultimately show ?thesis by simp
qed

lemma pairValue_Val:
  assumes one: "length (filter (\<lambda>d. d = []) docs) \<le> 1"
    and p: "p \<in> set (allPairs (length docs))"
  shows "\<exists>v. pairValue (generateSimilarityMatrix docs k) p = Val v"
proof -
  from p have ij: "fst p < snd p" "snd p < length docs" by (auto simp: allPairs_set)
  have "docs ! fst p \<noteq> [] \<or> docs ! snd p \<noteq> []"
    using two_empty_filter[OF ij] one by auto
  from similarityMetric_Val[OF this, of k] ij show ?thesis
    by (simp add: pairValue_def gsm_result gsm_entry_def min_def max_def)
qed

lemma rankedPairs_eq:
  "rankedPairs docs k =
     std_sort (\<lambda>a b. double_gt (pairValue (generateSimilarityMatrix docs k) a)
                                (pairValue (generateSimilarityMatrix docs k) b))
       (allPairs (length docs))"
  by (simp add: rankedPairs_def Let_def comparePairs_def pairValue_def)

lemma contract_sorted:
  assumes vals: "\<And>p. p \<in> set xs \<Longrightarrow> \<exists>v. f p = Val v"
    and perm: "mset ys = mset xs"
    and ord: "sorted_wrt (\<lambda>p q. \<not> double_gt (f q) (f p)) ys"
  shows "sorted_wrt (\<lambda>p q. double_ge (f p) (f q)) ys"
proof (rule sorted_wrt_mono_rel[OF _ ord])
  fix p q assume "p \<in> set ys" "q \<in> set ys" "\<not> double_gt (f q) (f p)"
  moreover have "set ys = set xs" using perm by (rule mset_eq_setD)
  ultimately show "double_ge (f p) (f q)" using vals[of p] vals[of q] by auto
qed

text \<open>
  Claim C7. The matrix values along the sorted list are claimed to be non-increasing for
  every corpus. With two empty documents and a third one, the value of the pair of empty
  documents is NaN, which is neither above, below nor equal to the other values: no
  arrangement of the three pairs is non-increasing.
\<close>

theorem ranking_two_empty:
  "\<not> sorted_wrt (\<lambda>p q. double_ge (pairValue (generateSimilarityMatrix ['''', '''', ''x''] 5) p)
                                 (pairValue (generateSimilarityMatrix ['''', '''', ''x''] 5) q))
       (rankedPairs ['''', '''', ''x''] 5)"
  by code_simp

text \<open>
  Claim C7, amended. The pair list built by \<^verbatim>\<open>main\<close> holds every pair \<open>(i, j)\<close> with
  \<open>i < j < n\<close> exactly once, \<open>C(n, 2)\<close> entries in all. When at most one document is empty
  (no matrix value is NaN), the sorted list is a permutation of it and the matrix values
  along the sorted list are non-increasing; so they are along every list that meets the
  contract of \<^verbatim>\<open>std::sort\<close> for this comparator (a permutation of the pair list in which no
  later pair compares before an earlier one).
\<close>

theorem rankedPairs_sorted:
  "set (allPairs n) = {(i, j). i < j \<and> j < n} \<and> distinct (allPairs n) \<and>
   length (allPairs n) = n choose 2 \<and>
   (length (filter (\<lambda>d. d = []) documents) \<le> 1 \<longrightarrow>
      mset (rankedPairs documents k) = mset (allPairs (length documents)) \<and>
      sorted_wrt (\<lambda>p q. double_ge (pairValue (generateSimilarityMatrix documents k) p)
                                   (pairValue (generateSimilarityMatrix documents k) q))
        (rankedPairs documents k) \<and>
      (\<forall>ys. mset ys = mset (allPairs (length documents)) \<and>
            sorted_wrt (\<lambda>p q. \<not> comparePairs q p (generateSimilarityMatrix documents k)) ys \<longrightarrow>
            sorted_wrt (\<lambda>p q. double_ge (pairValue (generateSimilarityMatrix documents k) p)
                                         (pairValue (generateSimilarityMatrix documents k) q)) ys))"
proof -
  let ?M = "generateSimilarityMatrix documents k"
  have "mset (rankedPairs documents k) = mset (allPairs (length documents))"
    by (simp add: rankedPairs_eq std_sort_mset)
  moreover have "sorted_wrt (\<lambda>p q. double_ge (pairValue ?M p) (pairValue ?M q))
        (rankedPairs documents k)"
    if "length (filter (\<lambda>d. d = []) documents) \<le> 1"
    unfolding rankedPairs_eq using pairValue_Val[OF that] by (rule std_sort_sorted)
  moreover have "sorted_wrt (\<lambda>p q. double_ge (pairValue ?M p) (pairValue ?M q)) ys"
    if one: "length (filter (\<lambda>d. d = []) documents) \<le> 1"
      and perm: "mset ys = mset (allPairs (length documents))"
      and ord: "sorted_wrt (\<lambda>p q. \<not> comparePairs q p ?M) ys" for ys
  proof -
    from ord have "sorted_wrt (\<lambda>p q. \<not> double_gt (pairValue ?M q) (pairValue ?M p)) ys"
      by (simp add: comparePairs_def pairValue_def)
    with pairValue_Val[OF one] perm show ?thesis by (rule contract_sorted)
  qed
  ultimately show ?thesis
    using allPairs_set allPairs_distinct allPairs_length by blast
qed

theorem rankedPairs_sorted_witness:
  "length (filter (\<lambda>d. d = []) [''abcde'', ''abcxy'', ''xycde'', '''', ''abcde'']) \<le> 1 \<and>
   length (allPairs 5) = 10 \<and>
   mset (rankedPairs [''abcde'', ''abcxy'', ''xycde'', '''', ''abcde''] 2)
     = mset (allPairs (length [''abcde'', ''abcxy'', ''xycde'', '''', ''abcde''])) \<and>
   sorted_wrt (\<lambda>p q. double_ge
        (pairValue (generateSimilarityMatrix [''abcde'', ''abcxy'', ''xycde'', '''', ''abcde''] 2) p)
        (pairValue (generateSimilarityMatrix [''abcde'', ''abcxy'', ''xycde'', '''', ''abcde''] 2) q))
     (rankedPairs [''abcde'', ''abcxy'', ''xycde'', '''', ''abcde''] 2)"
proof -
  note T = rankedPairs_sorted[of 5 "[''abcde'', ''abcxy'', ''xycde'', '''', ''abcde'']" 2]
  have h: "length (filter (\<lambda>d. d = []) [''abcde'', ''abcxy'', ''xycde'', '''', ''abcde'']) \<le> 1"
    by simp
  have "(5::nat) choose 2 = 10" by (simp add: choose_two)
  moreover from T have "length (allPairs 5) = 5 choose 2" by blast
  ultimately have l: "length (allPairs 5) = 10" by (simp only:)
  from T h l show ?thesis by blast
qed

end
